theory Spec2Isabelle
  imports Complex_Main "HOL-Library.AList"
begin

section \<open>Numbers\<close>

text \<open>
  The routing engine of \<^verbatim>\<open>src/js/pathfinding.js\<close> computes with JavaScript numbers.  A
  number that is not \<^verbatim>\<open>NaN\<close> is embedded as a real number, and \<open>+\<close>, \<open>-\<close>, \<open>*\<close>, \<open>/\<close> and the
  functions of \<^verbatim>\<open>Math\<close> on such numbers are the exact ones: the model does not round, and it
  has no infinities but the initial \<^verbatim>\<open>minDistance = Infinity\<close> of \<^verbatim>\<open>findClosestNode\<close>, which
  is \<open>None\<close> of an option.  What is proved of a computed value is proved of the value that the
  code denotes in exact arithmetic.  Two places go beyond the reals.  \<^verbatim>\<open>NaN\<close> is a value of
  the type \<open>number\<close> below, and \<^verbatim>\<open>haversineDistance\<close> and \<^verbatim>\<open>findClosestNode\<close>, which take
  arbitrary numbers, are given on it.  The product and the quotient from which the duration
  and the texts of a route are computed are those of the platform, rounding included: they
  are parameters of the model.
\<close>

definition Math_atan2 :: "real \<Rightarrow> real \<Rightarrow> real" where
  \<comment> \<open>\<^verbatim>\<open>Math.atan2(y, x)\<close>: the angle of the point \<open>(x, y)\<close>, in \<open>(-\<pi>, \<pi>]\<close>.\<close>
  "Math_atan2 y x =
     (if 0 < x then arctan (y / x)
      else if x < 0 then (if 0 \<le> y then arctan (y / x) + pi else arctan (y / x) - pi)
      else if 0 < y then pi / 2
      else if y < 0 then - (pi / 2)
      else 0)"


section \<open>GeoMath\<close>

definition toRadians :: "real \<Rightarrow> real" where
  "toRadians degrees = degrees * (pi / 180)"

definition haversineDistance :: "real \<Rightarrow> real \<Rightarrow> real \<Rightarrow> real \<Rightarrow> real" where
  \<comment> \<open>\<^verbatim>\<open>haversineDistance\<close> on numbers that are not \<^verbatim>\<open>NaN\<close>.\<close>
  "haversineDistance lat1 lng1 lat2 lng2 =
     (let R = 6371;
          dLat = toRadians (lat2 - lat1);
          dLng = toRadians (lng2 - lng1);
          a = sin (dLat / 2) * sin (dLat / 2) +
              cos (toRadians lat1) * cos (toRadians lat2) *
              sin (dLng / 2) * sin (dLng / 2);
          c = 2 * Math_atan2 (sqrt a) (sqrt (1 - a))
      in R * c)"

subsection \<open>Numbers with \<^verbatim>\<open>NaN\<close>\<close>

text \<open>
  An operation with an operand \<^verbatim>\<open>NaN\<close> is \<^verbatim>\<open>NaN\<close>, \<^verbatim>\<open>Math.sqrt\<close> of a negative number is
  \<^verbatim>\<open>NaN\<close>, and a comparison with \<^verbatim>\<open>NaN\<close> is false, \<^verbatim>\<open>NaN == NaN\<close> too.  The divisions of the
  code below have the divisors \<open>180\<close> and \<open>2\<close>.
\<close>

datatype number = Num real | NaN

definition number1 :: "(real \<Rightarrow> real) \<Rightarrow> number \<Rightarrow> number" where
  \<comment> \<open>A function of \<^verbatim>\<open>Math\<close> that is defined on every real, on numbers.\<close>
  "number1 fn x = (case x of Num a \<Rightarrow> Num (fn a) | NaN \<Rightarrow> NaN)"

definition number2 :: "(real \<Rightarrow> real \<Rightarrow> real) \<Rightarrow> number \<Rightarrow> number \<Rightarrow> number" where
  \<comment> \<open>An arithmetic operation on numbers.\<close>
  "number2 op x y = (case (x, y) of (Num a, Num b) \<Rightarrow> Num (op a b) | _ \<Rightarrow> NaN)"

definition Math_sqrt :: "number \<Rightarrow> number" where
  "Math_sqrt x = (case x of Num a \<Rightarrow> if a < 0 then NaN else Num (sqrt a) | NaN \<Rightarrow> NaN)"

definition number_less :: "number \<Rightarrow> number \<Rightarrow> bool" where
  \<comment> \<open>\<^verbatim>\<open>x < y\<close>\<close>
  "number_less x y = (case (x, y) of (Num a, Num b) \<Rightarrow> a < b | _ \<Rightarrow> False)"

definition number_le :: "number \<Rightarrow> number \<Rightarrow> bool" where
  \<comment> \<open>\<^verbatim>\<open>x <= y\<close>\<close>
  "number_le x y = (case (x, y) of (Num a, Num b) \<Rightarrow> a \<le> b | _ \<Rightarrow> False)"


definition toRadians_number :: "number \<Rightarrow> number" where
  "toRadians_number degrees = number2 (*) degrees (number2 (/) (Num pi) (Num 180))"

definition haversineDistance_number :: "number \<Rightarrow> number \<Rightarrow> number \<Rightarrow> number \<Rightarrow> number" where
  \<comment> \<open>\<^verbatim>\<open>haversineDistance\<close> on all numbers, operation by operation.\<close>
  "haversineDistance_number lat1 lng1 lat2 lng2 =
     (let R = Num 6371;
          dLat = toRadians_number (number2 (-) lat2 lat1);
          dLng = toRadians_number (number2 (-) lng2 lng1);
          a = number2 (+)
                (number2 (*) (number1 sin (number2 (/) dLat (Num 2)))
                             (number1 sin (number2 (/) dLat (Num 2))))
                (number2 (*)
                   (number2 (*)
                      (number2 (*) (number1 cos (toRadians_number lat1))
                                   (number1 cos (toRadians_number lat2)))
                      (number1 sin (number2 (/) dLng (Num 2))))
                   (number1 sin (number2 (/) dLng (Num 2))));
          c = number2 (*) (Num 2) (number2 Math_atan2 (Math_sqrt a) (Math_sqrt (number2 (-) (Num 1) a)))
      in number2 (*) R c)"

section \<open>Printing numbers\<close>

text \<open>
  A template literal prints an integer as its decimal digits, and \<^verbatim>\<open>toFixed(2)\<close> prints the
  nearest multiple of \<open>1/100\<close> (a tie going to the larger magnitude) with two digits after the
  point.  These are the texts of ECMAScript's \<^verbatim>\<open>Number::toString\<close> and
  \<^verbatim>\<open>Number.prototype.toFixed\<close> on numbers of magnitude below \<open>10\<^sup>2\<^sup>1\<close>, where JavaScript
  changes to exponent notation.  The text of a number that is not an integer is left to the
  platform: it is the parameter \<open>numstr\<close> of the node constructor.
\<close>

definition digit_char :: "nat \<Rightarrow> char" where
  "digit_char d = ''0123456789'' ! d"

fun show_nat :: "nat \<Rightarrow> string" where
  "show_nat n = (if n < 10 then [digit_char n] else show_nat (n div 10) @ [digit_char (n mod 10)])"

declare show_nat.simps [simp del]




section \<open>Nodes, the heap and the graph\<close>

text \<open>
  A \<^verbatim>\<open>Node\<close> is a mutable object that neighbor lists and parent fields refer to, so nodes
  live in an explicit heap: a list of nodes, an address being an index.  \<^verbatim>\<open>null\<close> is
  \<open>None\<close>.  The field \<^verbatim>\<open>id\<close> is \<open>id_node\<close>.  A \<^verbatim>\<open>Graph\<close> is its \<^verbatim>\<open>Map\<close> from ids to nodes,
  an association list in insertion order: \<^verbatim>\<open>Map.set\<close> on a key that is present replaces the
  value where it stands, which is \<^const>\<open>AList.update\<close>.
\<close>

type_synonym addr = nat

record coord =
  lat :: real
  lng :: real

record node = coord +
  id_node :: string
  g :: real
  h :: real
  f :: real
  parent :: "addr option"
  neighbors :: "addr list"

type_synonym heap = "node list"

type_synonym graph = "(string \<times> addr) list"

definition Node_new :: "(real \<Rightarrow> string) \<Rightarrow> real \<Rightarrow> real \<Rightarrow> string option \<Rightarrow> node" where
  \<comment> \<open>The constructor: \<^verbatim>\<open>id || `${lat},${lng}`\<close> takes the coordinates' text when \<^verbatim>\<open>id\<close> is
      \<^verbatim>\<open>null\<close> or the empty string.\<close>
  "Node_new numstr la lo ident =
     \<lparr>lat = la, lng = lo,
      id_node = (case ident of
                   None \<Rightarrow> numstr la @ '','' @ numstr lo
                 | Some s \<Rightarrow> if s = [] then numstr la @ '','' @ numstr lo else s),
      g = 0, h = 0, f = 0, parent = None, neighbors = []\<rparr>"

definition distanceTo :: "node \<Rightarrow> node \<Rightarrow> real" where
  "distanceTo this other = haversineDistance (lat this) (lng this) (lat other) (lng other)"

definition addNode ::
  "(real \<Rightarrow> string) \<Rightarrow> heap \<times> graph \<Rightarrow> real \<Rightarrow> real \<Rightarrow> string option \<Rightarrow> heap \<times> graph \<times> addr" where
  \<comment> \<open>The new node gets the next free address; the result is the heap, the graph and the node.\<close>
  "addNode numstr st la lo ident =
     (case st of (hp, gr) \<Rightarrow>
        let nd = Node_new numstr la lo ident;
            a = length hp
        in (hp @ [nd], AList.update (id_node nd) a gr, a))"

definition getNode :: "graph \<Rightarrow> string \<Rightarrow> addr option" where
  "getNode gr ident = map_of gr ident"

definition push_neighbor :: "heap \<Rightarrow> addr \<Rightarrow> addr \<Rightarrow> heap" where
  \<comment> \<open>\<^verbatim>\<open>a.neighbors.push(b)\<close>\<close>
  "push_neighbor hp a b = hp[a := (hp ! a)\<lparr>neighbors := neighbors (hp ! a) @ [b]\<rparr>]"

definition addEdge :: "heap \<times> graph \<Rightarrow> string \<Rightarrow> string \<Rightarrow> heap \<times> graph" where
  "addEdge st nodeId1 nodeId2 =
     (case st of (hp, gr) \<Rightarrow>
        (case (getNode gr nodeId1, getNode gr nodeId2) of
           (Some node1, Some node2) \<Rightarrow> (push_neighbor (push_neighbor hp node1 node2) node2 node1, gr)
         | _ \<Rightarrow> (hp, gr)))"

subsection \<open>The grid graph\<close>

definition grid_id :: "nat \<Rightarrow> nat \<Rightarrow> string" where
  \<comment> \<open>\<^verbatim>\<open>`${i},${j}`\<close>\<close>
  "grid_id i j = show_nat i @ '','' @ show_nat j"

definition grid_add_node ::
  "(real \<Rightarrow> string) \<Rightarrow> coord \<Rightarrow> real \<Rightarrow> real \<Rightarrow> real \<Rightarrow> nat \<Rightarrow> nat \<Rightarrow>
   (heap \<times> graph) \<times> (addr \<times> nat \<times> nat) list \<Rightarrow> (heap \<times> graph) \<times> (addr \<times> nat \<times> nat) list" where
  \<comment> \<open>The body of the inner loop that creates the nodes.\<close>
  "grid_add_node numstr center radiusKm latStep lngStep i j acc =
     (case acc of (st, nodes) \<Rightarrow>
        let la = lat center - (radiusKm / 111) / 2 + real i * latStep;
            lo = lng center - (radiusKm / (111 * cos (lat center * pi / 180))) / 2 + real j * lngStep
        in (case addNode numstr st la lo (Some (grid_id i j)) of
              (hp', gr', nd) \<Rightarrow> ((hp', gr'), nodes @ [(nd, i, j)])))"

definition grid_connect :: "int \<Rightarrow> addr \<times> nat \<times> nat \<Rightarrow> heap \<times> graph \<Rightarrow> heap \<times> graph" where
  \<comment> \<open>The body of the loop that connects a node to its right, lower and two diagonal
      neighbors.\<close>
  "grid_connect gridSize entry st =
     (case entry of (nd, i, j) \<Rightarrow>
        let st1 = (if int j < gridSize - 1
                   then addEdge st (id_node (fst st ! nd)) (grid_id i (j + 1)) else st);
            st2 = (if int i < gridSize - 1
                   then addEdge st1 (id_node (fst st1 ! nd)) (grid_id (i + 1) j) else st1);
            st3 = (if int i < gridSize - 1 \<and> int j < gridSize - 1
                   then addEdge st2 (id_node (fst st2 ! nd)) (grid_id (i + 1) (j + 1)) else st2);
            st4 = (if int i < gridSize - 1 \<and> j > 0
                   then addEdge st3 (id_node (fst st3 ! nd)) (grid_id (i + 1) (j - 1)) else st3)
        in st4)"

definition createGridGraph ::
  "(real \<Rightarrow> string) \<Rightarrow> heap \<times> graph \<Rightarrow> coord \<Rightarrow> real \<Rightarrow> int \<Rightarrow> heap \<times> graph" where
  "createGridGraph numstr st center radiusKm gridSize =
     (let latStep = (radiusKm / 111) / real_of_int gridSize;
          lngStep = (radiusKm / (111 * cos (lat center * pi / 180))) / real_of_int gridSize;
          created = fold (\<lambda>i. fold (grid_add_node numstr center radiusKm latStep lngStep i)
                                    [0..<nat gridSize])
                         [0..<nat gridSize] (st, [])
      in fold (grid_connect gridSize) (snd created) (fst created))"

subsection \<open>The closest node\<close>

definition below_minDistance :: "number \<Rightarrow> number option \<Rightarrow> bool" where
  \<comment> \<open>\<^verbatim>\<open>distance < minDistance\<close>, where \<open>None\<close> is \<^verbatim>\<open>Infinity\<close>\<close>
  "below_minDistance distance minDistance =
     (case minDistance of None \<Rightarrow> distance \<noteq> NaN | Some m \<Rightarrow> number_less distance m)"

fun findClosestNode_loop ::
  "heap \<Rightarrow> number \<Rightarrow> number \<Rightarrow> addr list \<Rightarrow> addr option \<times> number option \<Rightarrow>
   addr option \<times> number option" where
  "findClosestNode_loop hp la lo [] st = st"
| "findClosestNode_loop hp la lo (nd # nds) (closest, minDistance) =
     (let distance = haversineDistance_number la lo (Num (lat (hp ! nd))) (Num (lng (hp ! nd)))
      in if below_minDistance distance minDistance
         then findClosestNode_loop hp la lo nds (Some nd, Some distance)
         else findClosestNode_loop hp la lo nds (closest, minDistance))"

definition findClosestNode :: "heap \<Rightarrow> graph \<Rightarrow> number \<Rightarrow> number \<Rightarrow> addr option" where
  "findClosestNode hp gr la lo = fst (findClosestNode_loop hp la lo (map snd gr) (None, None))"

section \<open>PathSearch: A*\<close>

text \<open>
  \<^verbatim>\<open>aStar(start, goal)\<close> mutates the scratch fields of the nodes it meets, so it takes the
  heap and returns the heap it leaves.  The open set is the array of the source, a list of
  nodes; the closed set is the \<^verbatim>\<open>Set\<close> of ids.  The \<^verbatim>\<open>while\<close> loops are partial functions:
  \<open>None\<close> is a loop that never ends.  The texts of \<^verbatim>\<open>console.error\<close> and \<^verbatim>\<open>console.warn\<close>
  are not part of the model.
\<close>

fun lowest_f :: "heap \<Rightarrow> addr list \<Rightarrow> nat \<Rightarrow> addr \<times> nat \<Rightarrow> addr \<times> nat" where
  \<comment> \<open>The scan \<^verbatim>\<open>for (let i = 1; i < openSet.length; i++)\<close> for the node with the lowest
      \<^verbatim>\<open>f\<close>: the rest of the open set from index \<open>i\<close> on, and the pair
      \<^verbatim>\<open>(current, currentIndex)\<close>.\<close>
  "lowest_f hp [] i cur = cur"
| "lowest_f hp (x # xs) i (current, currentIndex) =
     lowest_f hp xs (Suc i)
       (if f (hp ! x) < f (hp ! current) then (x, i) else (current, currentIndex))"

definition improve :: "heap \<Rightarrow> addr \<Rightarrow> addr \<Rightarrow> addr \<Rightarrow> real \<Rightarrow> heap" where
  \<comment> \<open>``This path is the best so far'': the four assignments to the neighbor, in the order
      of the source.\<close>
  "improve hp goal current neighbor tentativeG =
     (let hp1 = hp[neighbor := (hp ! neighbor)\<lparr>parent := Some current\<rparr>];
          hp2 = hp1[neighbor := (hp1 ! neighbor)\<lparr>g := tentativeG\<rparr>];
          hp3 = hp2[neighbor := (hp2 ! neighbor)\<lparr>h := distanceTo (hp2 ! neighbor) (hp2 ! goal)\<rparr>];
          hp4 = hp3[neighbor := (hp3 ! neighbor)\<lparr>f := g (hp3 ! neighbor) + h (hp3 ! neighbor)\<rparr>]
      in hp4)"

fun examine ::
  "addr \<Rightarrow> string set \<Rightarrow> addr \<Rightarrow> addr list \<Rightarrow> heap \<times> addr list \<Rightarrow> heap \<times> addr list" where
  \<comment> \<open>\<^verbatim>\<open>for (const neighbor of current.neighbors)\<close>, on the heap and the open set.\<close>
  "examine goal closedSet current [] st = st"
| "examine goal closedSet current (neighbor # rest) (hp, openSet) =
     (if id_node (hp ! neighbor) \<in> closedSet
      then examine goal closedSet current rest (hp, openSet)
      else
        (let tentativeG = g (hp ! current) + distanceTo (hp ! current) (hp ! neighbor);
             inOpenSet = find (\<lambda>n. id_node (hp ! n) = id_node (hp ! neighbor)) openSet
         in if inOpenSet = None
            then examine goal closedSet current rest
                   (improve hp goal current neighbor tentativeG, openSet @ [neighbor])
            else if tentativeG \<ge> g (hp ! neighbor)
            then examine goal closedSet current rest (hp, openSet)
            else examine goal closedSet current rest
                   (improve hp goal current neighbor tentativeG, openSet)))"

partial_function (option) aStar_loop ::
  "addr \<Rightarrow> heap \<Rightarrow> addr list \<Rightarrow> string set \<Rightarrow> (heap \<times> addr option) option" where
  \<comment> \<open>\<^verbatim>\<open>while (openSet.length > 0)\<close>: the result is the heap and the node at which the goal
      was reached, or \<open>None\<close> for it when the open set ran empty.\<close>
  "aStar_loop goal hp openSet closedSet =
     (case openSet of
        [] \<Rightarrow> Some (hp, None)
      | first # rest \<Rightarrow>
          (let (current, currentIndex) = lowest_f hp rest 1 (first, 0) in
           if id_node (hp ! current) = id_node (hp ! goal) then Some (hp, Some current)
           else
             (let openSet1 = take currentIndex openSet @ drop (Suc currentIndex) openSet;
                  closedSet1 = insert (id_node (hp ! current)) closedSet;
                  (hp2, openSet2) =
                     examine goal closedSet1 current (neighbors (hp ! current)) (hp, openSet1)
              in aStar_loop goal hp2 openSet2 closedSet1)))"

partial_function (option) reconstructPath_loop ::
  "heap \<Rightarrow> addr option \<Rightarrow> coord list \<Rightarrow> coord list option" where
  \<comment> \<open>\<^verbatim>\<open>while (current)\<close>: \<^verbatim>\<open>unshift\<close> puts the position in front of the path.\<close>
  "reconstructPath_loop hp current path =
     (case current of
        None \<Rightarrow> Some path
      | Some nd \<Rightarrow>
          reconstructPath_loop hp (parent (hp ! nd)) (\<lparr>lat = lat (hp ! nd), lng = lng (hp ! nd)\<rparr> # path))"

definition reconstructPath :: "heap \<Rightarrow> addr option \<Rightarrow> coord list option" where
  "reconstructPath hp nd = reconstructPath_loop hp nd []"

definition aStar_init :: "heap \<Rightarrow> addr \<Rightarrow> addr \<Rightarrow> heap" where
  \<comment> \<open>\<^verbatim>\<open>start.g = 0; start.h = start.distanceTo(goal); start.f = start.h;\<close>\<close>
  "aStar_init hp start goal =
     (let hp1 = hp[start := (hp ! start)\<lparr>g := 0\<rparr>];
          hp2 = hp1[start := (hp1 ! start)\<lparr>h := distanceTo (hp1 ! start) (hp1 ! goal)\<rparr>];
          hp3 = hp2[start := (hp2 ! start)\<lparr>f := h (hp2 ! start)\<rparr>]
      in hp3)"

definition aStar_search :: "heap \<Rightarrow> addr \<Rightarrow> addr \<Rightarrow> (heap \<times> addr option) option" where
  \<comment> \<open>The search up to the node at which it stops: the initialisation and the loop.\<close>
  "aStar_search hp start goal = aStar_loop goal (aStar_init hp start goal) [start] {}"

definition aStar :: "heap \<Rightarrow> addr option \<Rightarrow> addr option \<Rightarrow> (heap \<times> coord list option) option" where
  \<comment> \<open>The result is the heap and the path, \<open>None\<close> for the path being \<^verbatim>\<open>null\<close>.\<close>
  "aStar hp start goal =
     (case (start, goal) of
        (Some s, Some gl) \<Rightarrow>
          (case aStar_search hp s gl of
             None \<Rightarrow> None
           | Some (hp', None) \<Rightarrow> Some (hp', None)
           | Some (hp', Some current) \<Rightarrow>
               map_option (\<lambda>path. (hp', Some path)) (reconstructPath hp' (Some current)))
      | _ \<Rightarrow> Some (hp, None))"

section \<open>RouteService\<close>



record route =
  path :: "coord list"
  distance :: real
  distanceText :: string
  duration :: int
  durationText :: string









definition total_distance :: "coord list \<Rightarrow> real" where
  \<comment> \<open>\<^verbatim>\<open>for (let i = 1; i < path.length; i++) totalDistance += ...\<close>\<close>
  "total_distance pth =
     fold (\<lambda>i totalDistance.
             totalDistance +
             haversineDistance (lat (pth ! (i - 1))) (lng (pth ! (i - 1))) (lat (pth ! i)) (lng (pth ! i)))
          [1..<length pth] 0"





section \<open>Notions of the statements\<close>

text \<open>
  The definitions of this section are not code of the repository: they are the words in
  which the properties below are stated, and the parts of the loops that the proofs name.
\<close>

subsection \<open>Graphs\<close>

definition graph_nodes :: "graph \<Rightarrow> addr set" where
  \<comment> \<open>The nodes of a graph: the values of its map.\<close>
  "graph_nodes gr = snd ` set gr"

definition closed_under :: "heap \<Rightarrow> addr set \<Rightarrow> bool" where
  \<comment> \<open>\<open>N\<close> is a set of nodes of the heap that holds the neighbors of its nodes.\<close>
  "closed_under hp N = (\<forall>a\<in>N. a < length hp \<and> set (neighbors (hp ! a)) \<subseteq> N)"

definition closed_graph :: "heap \<Rightarrow> graph \<Rightarrow> bool" where
  \<comment> \<open>The neighbors of a node of the graph are nodes of the graph.\<close>
  "closed_graph hp gr = closed_under hp (graph_nodes gr)"

definition graph_ok :: "heap \<Rightarrow> graph \<Rightarrow> bool" where
  \<comment> \<open>A graph as \<^verbatim>\<open>addNode\<close> and \<^verbatim>\<open>addEdge\<close> build it when no id is used twice: the keys of
      the map are distinct, a node is stored under its own id, and neighbors are nodes of the
      graph.\<close>
  "graph_ok hp gr =
     (closed_graph hp gr \<and> distinct (map fst gr) \<and> (\<forall>(k, a)\<in>set gr. id_node (hp ! a) = k))"

definition node_structure :: "node \<Rightarrow> real \<times> real \<times> string \<times> addr list" where
  \<comment> \<open>The fields of a node that are not scratch fields of the search.\<close>
  "node_structure nd = (lat nd, lng nd, id_node nd, neighbors nd)"

definition same_structure :: "heap \<Rightarrow> heap \<Rightarrow> bool" where
  \<comment> \<open>Two heaps hold the same nodes up to the scratch fields \<open>g\<close>, \<open>h\<close>, \<open>f\<close> and \<open>parent\<close>.\<close>
  "same_structure hp hp' = (map node_structure hp' = map node_structure hp)"

definition position :: "node \<Rightarrow> coord" where
  \<comment> \<open>\<^verbatim>\<open>{ lat: node.lat, lng: node.lng }\<close>\<close>
  "position nd = \<lparr>lat = lat nd, lng = lng nd\<rparr>"

definition node_distance :: "heap \<Rightarrow> number \<Rightarrow> number \<Rightarrow> addr \<Rightarrow> number" where
  \<comment> \<open>The distance from a position to a node, as \<^verbatim>\<open>findClosestNode\<close> computes it.\<close>
  "node_distance hp la lo nd =
     haversineDistance_number la lo (Num (lat (hp ! nd))) (Num (lng (hp ! nd)))"

subsection \<open>Paths along neighbor edges\<close>

fun is_path :: "heap \<Rightarrow> addr list \<Rightarrow> bool" where
  \<comment> \<open>Every node of the list but the first is in the neighbor list of the one before it.\<close>
  "is_path hp (a # b # p) = (b \<in> set (neighbors (hp ! a)) \<and> is_path hp (b # p))"
| "is_path hp p = True"

definition path_from_to :: "heap \<Rightarrow> addr \<Rightarrow> addr \<Rightarrow> addr list \<Rightarrow> bool" where
  "path_from_to hp a b p = (p \<noteq> [] \<and> hd p = a \<and> last p = b \<and> is_path hp p)"

fun path_cost :: "heap \<Rightarrow> addr list \<Rightarrow> real" where
  \<comment> \<open>The sum of the distances between the consecutive nodes of a path.\<close>
  "path_cost hp (a # b # p) = distanceTo (hp ! a) (hp ! b) + path_cost hp (b # p)"
| "path_cost hp p = 0"

subsection \<open>The parts of an iteration of the search\<close>

definition idf :: "heap \<Rightarrow> addr \<Rightarrow> string" where
  "idf hp a = id_node (hp ! a)"

definition select_current :: "heap \<Rightarrow> addr list \<Rightarrow> addr \<times> nat" where
  \<comment> \<open>The node that an iteration selects from a non-empty open set, and its index.\<close>
  "select_current hp openSet = lowest_f hp (tl openSet) 1 (hd openSet, 0)"

definition examine_one ::
  "addr \<Rightarrow> string set \<Rightarrow> addr \<Rightarrow> addr \<Rightarrow> heap \<times> addr list \<Rightarrow> heap \<times> addr list" where
  \<comment> \<open>One iteration of the loop over the neighbors.\<close>
  "examine_one goal closedSet current neighbor st = examine goal closedSet current [neighbor] st"

definition expand :: "addr \<Rightarrow> heap \<Rightarrow> addr list \<Rightarrow> string set \<Rightarrow> heap \<times> addr list" where
  \<comment> \<open>The heap and the open set after an iteration that did not select the goal.\<close>
  "expand goal hp openSet closedSet =
     (let (current, currentIndex) = select_current hp openSet
      in examine goal (insert (id_node (hp ! current)) closedSet) current (neighbors (hp ! current))
           (hp, take currentIndex openSet @ drop (Suc currentIndex) openSet))"

definition valid_state :: "addr set \<Rightarrow> heap \<Rightarrow> heap \<Rightarrow> addr list \<Rightarrow> string set \<Rightarrow> bool" where
  \<comment> \<open>What every iteration keeps: the structure of the heap \<open>hp0\<close> the search started in, open
      nodes in \<open>N\<close> with distinct ids, none of them closed.\<close>
  "valid_state N hp0 hp os cl =
     (same_structure hp0 hp \<and> closed_under hp0 N \<and> set os \<subseteq> N \<and>
      distinct (map (idf hp0) os) \<and> (\<forall>a\<in>set os. idf hp0 a \<notin> cl))"

section \<open>Example data\<close>

definition mk_node :: "real \<Rightarrow> real \<Rightarrow> string \<Rightarrow> addr list \<Rightarrow> node" where
  \<comment> \<open>A node as the constructor leaves it, with the neighbors that \<^verbatim>\<open>addEdge\<close> has pushed.\<close>
  "mk_node la lo ident nbs =
     \<lparr>lat = la, lng = lo, id_node = ident, g = 0, h = 0, f = 0, parent = None, neighbors = nbs\<rparr>"

definition tie_heap :: heap where
  \<comment> \<open>Two unconnected nodes at the same place.\<close>
  "tie_heap = [mk_node 0 0 ''a'' [], mk_node 0 0 ''b'' []]"

definition tie_graph :: graph where
  "tie_graph = [(''a'', 0), (''b'', 1)]"

definition equator_heap :: heap where
  \<comment> \<open>Three nodes on the equator, a quarter of it apart, connected in a line, and a fourth
      node with no edge.\<close>
  "equator_heap =
     [mk_node 0 0 ''a'' [1], mk_node 0 90 ''b'' [0, 2], mk_node 0 180 ''c'' [1],
      mk_node 0 0 ''d'' []]"

definition equator_graph :: graph where
  "equator_graph = [(''a'', 0), (''b'', 1), (''c'', 2), (''d'', 3)]"

definition equator_quarter :: real where
  \<comment> \<open>The length of a quarter of the equator.\<close>
  "equator_quarter = 6371 * pi / 2"

definition pair_heap :: heap where
  \<comment> \<open>Two connected nodes a quarter of the equator apart, as \<^verbatim>\<open>addNode\<close> and \<^verbatim>\<open>addEdge\<close>
      leave them.\<close>
  "pair_heap = [mk_node 0 0 ''a'' [1], mk_node 0 90 ''b'' [0]]"

definition pair_graph :: graph where
  "pair_graph = [(''a'', 0), (''b'', 1)]"


definition detour_build :: "heap \<times> graph" where
  \<comment> \<open>The calls that build a graph in which the id \<open>x\<close> is used twice: a node \<open>x\<close> a quarter
      of the equator away from \<open>s\<close> and \<open>t\<close>, then a node \<open>x\<close> at their place.\<close>
  "detour_build =
     (let (hp, gr, x) = addNode (\<lambda>v. []) ([], []) 0 90 (Some ''x'');
          (hp, gr, s) = addNode (\<lambda>v. []) (hp, gr) 0 0 (Some ''s'');
          (hp, gr, t) = addNode (\<lambda>v. []) (hp, gr) 0 0 (Some ''t'');
          st = addEdge (hp, gr) ''s'' ''x'';
          (hp, gr) = addEdge st ''x'' ''t'';
          (hp, gr, x') = addNode (\<lambda>v. []) (hp, gr) 0 0 (Some ''x'');
          st = addEdge (hp, gr) ''s'' ''x''
      in addEdge st ''x'' ''t'')"

definition detour_heap :: heap where
  \<comment> \<open>The nodes that these calls leave: the first \<open>x\<close>, \<open>s\<close>, \<open>t\<close> and the second \<open>x\<close>.\<close>
  "detour_heap =
     [mk_node 0 90 ''x'' [1, 2], mk_node 0 0 ''s'' [0, 3], mk_node 0 0 ''t'' [0, 3],
      mk_node 0 0 ''x'' [1, 2]]"

definition detour_graph :: graph where
  "detour_graph = [(''x'', 3), (''s'', 1), (''t'', 2)]"

definition twin_build :: "heap \<times> graph" where
  \<comment> \<open>The calls that build a graph in which the id \<open>g\<close> is used twice, the second node
      \<open>g\<close> having no edge.\<close>
  "twin_build =
     (let (hp, gr, g1) = addNode (\<lambda>v. []) ([], []) 0 90 (Some ''g'');
          (hp, gr, s) = addNode (\<lambda>v. []) (hp, gr) 0 0 (Some ''s'');
          (hp, gr) = addEdge (hp, gr) ''g'' ''s''
      in case addNode (\<lambda>v. []) (hp, gr) 0 0 (Some ''g'') of (hp, gr, g2) \<Rightarrow> (hp, gr))"

definition twin_heap :: heap where
  "twin_heap = [mk_node 0 90 ''g'' [1], mk_node 0 0 ''s'' [0], mk_node 0 0 ''g'' []]"

definition twin_graph :: graph where
  "twin_graph = [(''g'', 2), (''s'', 1)]"

subsection \<open>Points on the unit sphere\<close>

text \<open>
  The haversine formula is the angle between two unit vectors, times the radius: the notions
  in which the triangle inequality of \<^const>\<open>haversineDistance\<close> is proved.
\<close>

type_synonym vec3 = "real \<times> real \<times> real"

definition dot3 :: "vec3 \<Rightarrow> vec3 \<Rightarrow> real" where
  "dot3 u v = fst u * fst v + fst (snd u) * fst (snd v) + snd (snd u) * snd (snd v)"

definition unit_vec :: "real \<Rightarrow> real \<Rightarrow> vec3" where
  "unit_vec la lo =
     (cos (toRadians la) * cos (toRadians lo), cos (toRadians la) * sin (toRadians lo),
      sin (toRadians la))"

definition central_angle :: "real \<Rightarrow> real \<Rightarrow> real \<Rightarrow> real \<Rightarrow> real" where
  "central_angle lat1 lng1 lat2 lng2 = arccos (dot3 (unit_vec lat1 lng1) (unit_vec lat2 lng2))"

definition haversine_a :: "real \<Rightarrow> real \<Rightarrow> real \<Rightarrow> real \<Rightarrow> real" where
  "haversine_a lat1 lng1 lat2 lng2 =
     sin (toRadians (lat2 - lat1) / 2) * sin (toRadians (lat2 - lat1) / 2) +
     cos (toRadians lat1) * cos (toRadians lat2) *
     sin (toRadians (lng2 - lng1) / 2) * sin (toRadians (lng2 - lng1) / 2)"

definition residual :: "real \<Rightarrow> vec3 \<Rightarrow> vec3 \<Rightarrow> vec3" where
  "residual p u v =
     (fst u - p * fst v, fst (snd u) - p * fst (snd v), snd (snd u) - p * snd (snd v))"

subsection \<open>The invariants of the search\<close>

inductive pchain :: "heap \<Rightarrow> addr \<Rightarrow> addr list \<Rightarrow> bool" for hp where
  \<comment> \<open>\<open>pchain hp a p\<close>: following \<^verbatim>\<open>parent\<close> from \<open>a\<close> ends at \<^verbatim>\<open>null\<close>, and \<open>p\<close> lists the
      nodes met, the last met first.\<close>
  pchain_root: "parent (hp ! a) = None \<Longrightarrow> pchain hp a [a]"
| pchain_step: "parent (hp ! a) = Some b \<Longrightarrow> pchain hp b p \<Longrightarrow> pchain hp a (p @ [a])"

definition closed_nodes :: "addr set \<Rightarrow> heap \<Rightarrow> string set \<Rightarrow> addr set" where
  \<comment> \<open>The nodes of \<open>N\<close> whose id is in the closed set.\<close>
  "closed_nodes N hp0 cl = {a \<in> N. idf hp0 a \<in> cl}"

definition chain_inv :: "addr set \<Rightarrow> heap \<Rightarrow> addr \<Rightarrow> heap \<Rightarrow> addr list \<Rightarrow> string set \<Rightarrow> bool" where
  \<comment> \<open>Every open or closed node has a parent chain that is a path from the start through
      closed nodes, and its \<open>g\<close> is the cost of that path.\<close>
  "chain_inv N hp0 s hp os cl =
     (\<forall>a\<in>set os \<union> closed_nodes N hp0 cl.
        \<exists>p. pchain hp a p \<and> path_from_to hp0 s a p \<and>
            set (butlast p) \<subseteq> closed_nodes N hp0 cl \<and> g (hp ! a) = path_cost hp0 p)"

definition f_inv :: "addr set \<Rightarrow> heap \<Rightarrow> addr \<Rightarrow> heap \<Rightarrow> addr list \<Rightarrow> string set \<Rightarrow> bool" where
  \<comment> \<open>\<open>f = g + h\<close>, with \<open>h\<close> the distance to the goal.\<close>
  "f_inv N hp0 gl hp os cl =
     (\<forall>a\<in>set os \<union> closed_nodes N hp0 cl.
         f (hp ! a) = g (hp ! a) + distanceTo (hp0 ! a) (hp0 ! gl))"

definition optimal_closed :: "addr set \<Rightarrow> heap \<Rightarrow> addr \<Rightarrow> heap \<Rightarrow> string set \<Rightarrow> bool" where
  \<comment> \<open>No path from the start to a closed node costs less than its \<open>g\<close>.\<close>
  "optimal_closed N hp0 s hp cl =
     (\<forall>a\<in>closed_nodes N hp0 cl. \<forall>p. path_from_to hp0 s a p \<longrightarrow> g (hp ! a) \<le> path_cost hp0 p)"

definition edges_from :: "heap \<Rightarrow> addr set \<Rightarrow> (addr \<times> addr) set" where
  \<comment> \<open>The neighbor edges that leave the nodes of \<open>A\<close>.\<close>
  "edges_from hp0 A = {(a, b). a \<in> A \<and> b \<in> set (neighbors (hp0 ! a))}"

definition relaxed ::
  "addr set \<Rightarrow> heap \<Rightarrow> string set \<Rightarrow> heap \<Rightarrow> addr list \<Rightarrow> (addr \<times> addr) set \<Rightarrow> bool" where
  \<comment> \<open>The edges of \<open>E\<close> leave closed nodes, lead to open or closed nodes, and have been
      taken into account.\<close>
  "relaxed N hp0 cl hp os E =
     (\<forall>(a, b)\<in>E. a \<in> closed_nodes N hp0 cl \<and> b \<in> set os \<union> closed_nodes N hp0 cl \<and>
        g (hp ! b) \<le> g (hp ! a) + distanceTo (hp0 ! a) (hp0 ! b))"

definition opt_inv ::
  "addr set \<Rightarrow> heap \<Rightarrow> addr \<Rightarrow> addr \<Rightarrow> heap \<Rightarrow> addr list \<Rightarrow> string set \<Rightarrow> bool" where
  \<comment> \<open>The invariant of the search from which optimality follows.\<close>
  "opt_inv N hp0 s gl hp os cl =
     (f_inv N hp0 gl hp os cl \<and> optimal_closed N hp0 s hp cl \<and>
      relaxed N hp0 cl hp os (edges_from hp0 (closed_nodes N hp0 cl)) \<and>
      (s \<in> closed_nodes N hp0 cl \<or> (os = [s] \<and> cl = {})))"

definition search_setting :: "addr set \<Rightarrow> heap \<Rightarrow> addr \<Rightarrow> addr \<Rightarrow> bool" where
  \<comment> \<open>The nodes of \<open>N\<close> have their neighbors in \<open>N\<close> and distinct ids.\<close>
  "search_setting N hp0 s gl = (closed_under hp0 N \<and> s \<in> N \<and> gl \<in> N \<and> inj_on (idf hp0) N)"

definition relax_state ::
  "addr set \<Rightarrow> heap \<Rightarrow> addr \<Rightarrow> addr \<Rightarrow> addr \<Rightarrow> string set \<Rightarrow> heap \<Rightarrow> (addr \<times> addr) set \<Rightarrow>
   addr list \<Rightarrow> heap \<times> addr list \<Rightarrow> bool" where
  \<comment> \<open>The invariant of the loop over the neighbors of \<open>cur\<close>, \<open>dn\<close> being the neighbors
      examined so far and \<open>hpA\<close> the heap the loop started in.\<close>
  "relax_state N hp0 s gl cur cl hpA E dn st =
     (same_structure hp0 (fst st) \<and> set (snd st) \<subseteq> N \<and> distinct (map (idf hp0) (snd st)) \<and>
      (\<forall>a\<in>set (snd st). idf hp0 a \<notin> cl) \<and>
      (\<forall>a\<in>closed_nodes N hp0 cl. g (fst st ! a) = g (hpA ! a)) \<and>
      chain_inv N hp0 s (fst st) (snd st) cl \<and> f_inv N hp0 gl (fst st) (snd st) cl \<and>
      relaxed N hp0 cl (fst st) (snd st) (E \<union> {cur} \<times> set dn))"

fun coords_cost :: "coord list \<Rightarrow> real" where
  \<comment> \<open>The sum of the distances between the consecutive positions of a path.\<close>
  "coords_cost (a # b # p) = haversineDistance (lat a) (lng a) (lat b) (lng b) + coords_cost (b # p)"
| "coords_cost p = 0"


subsection \<open>The cells and links of the grid\<close>

text \<open>
  The two loops of \<^verbatim>\<open>createGridGraph\<close> unfolded: the cells \<open>(i, j)\<close> in the order of the nested
  loops, the node made for a cell, its address \<open>base + i \<sqdot> N + j\<close> in a heap that had \<open>base\<close>
  nodes, and the pairs of cells that the second loop passes to \<^verbatim>\<open>addEdge\<close>.
\<close>

definition is_digit :: "char \<Rightarrow> bool" where
  "is_digit c = (c \<in> set ''0123456789'')"

definition cells :: "nat \<Rightarrow> (nat \<times> nat) list" where
  "cells N = List.product [0..<N] [0..<N]"

definition grid_node :: "(real \<Rightarrow> string) \<Rightarrow> coord \<Rightarrow> real \<Rightarrow> real \<Rightarrow> real \<Rightarrow> nat \<times> nat \<Rightarrow> node" where
  "grid_node numstr center radiusKm latStep lngStep c =
     Node_new numstr
       (lat center - (radiusKm / 111) / 2 + real (fst c) * latStep)
       (lng center - (radiusKm / (111 * cos (lat center * pi / 180))) / 2 + real (snd c) * lngStep)
       (Some (grid_id (fst c) (snd c)))"

definition cell_id :: "nat \<times> nat \<Rightarrow> string" where
  "cell_id c = grid_id (fst c) (snd c)"

definition connect_pair :: "addr \<times> addr \<Rightarrow> heap \<Rightarrow> heap" where
  "connect_pair p hp = push_neighbor (push_neighbor hp (fst p) (snd p)) (snd p) (fst p)"

definition links :: "nat \<Rightarrow> nat \<times> nat \<Rightarrow> (nat \<times> nat) list" where
  "links N c =
     (if snd c + 1 < N then [(fst c, snd c + 1)] else []) @
     (if fst c + 1 < N then [(fst c + 1, snd c)] else []) @
     (if fst c + 1 < N \<and> snd c + 1 < N then [(fst c + 1, snd c + 1)] else []) @
     (if fst c + 1 < N \<and> 0 < snd c then [(fst c + 1, snd c - 1)] else [])"

definition cell_addr :: "nat \<Rightarrow> nat \<Rightarrow> nat \<times> nat \<Rightarrow> addr" where
  "cell_addr base N c = base + fst c * N + snd c"

definition cell_links :: "nat \<Rightarrow> nat \<Rightarrow> nat \<times> nat \<Rightarrow> (addr \<times> addr) list" where
  "cell_links base N c = map (\<lambda>d. (cell_addr base N c, cell_addr base N d)) (links N c)"

definition grid_ready :: "nat \<Rightarrow> nat \<Rightarrow> heap \<Rightarrow> graph \<Rightarrow> bool" where
  "grid_ready base N hp gr =
     (\<forall>d\<in>set (cells N). getNode gr (cell_id d) = Some (cell_addr base N d) \<and>
        id_node (hp ! cell_addr base N d) = cell_id d)"

definition incoming :: "nat \<Rightarrow> nat \<times> nat \<Rightarrow> (nat \<times> nat) list" where
  "incoming N c =
     (if 0 < snd c then [(fst c, snd c - 1)] else []) @
     (if 0 < fst c then [(fst c - 1, snd c)] else []) @
     (if 0 < fst c \<and> 0 < snd c then [(fst c - 1, snd c - 1)] else []) @
     (if 0 < fst c \<and> snd c + 1 < N then [(fst c - 1, snd c + 1)] else [])"

definition grid_links :: "nat \<Rightarrow> nat \<Rightarrow> (addr \<times> addr) list" where
  "grid_links base N = concat (map (cell_links base N) (cells N))"

section \<open>GeoMath: properties\<close>

subsection \<open>Symmetry and the distance of a point to itself, without \<^verbatim>\<open>NaN\<close>\<close>

lemma sin_half_toRadians_swap:
  "sin (toRadians (x - y) / 2) * sin (toRadians (x - y) / 2) =
   sin (toRadians (y - x) / 2) * sin (toRadians (y - x) / 2)"
proof -
  have "toRadians (x - y) / 2 = - (toRadians (y - x) / 2)"
    by (simp add: toRadians_def field_simps)
  then have "sin (toRadians (x - y) / 2) = - sin (toRadians (y - x) / 2)"
    by (simp only: sin_minus)
  then show ?thesis by simp
qed

lemma haversineDistance_commute:
  "haversineDistance lat1 lng1 lat2 lng2 = haversineDistance lat2 lng2 lat1 lng1"
  unfolding haversineDistance_def Let_def
  using sin_half_toRadians_swap [of lat2 lat1] sin_half_toRadians_swap [of lng2 lng1]
  by (simp add: mult.commute mult.left_commute mult.assoc)

lemma haversineDistance_self: "haversineDistance lat1 lng1 lat1 lng1 = 0"
  by (simp add: haversineDistance_def Math_atan2_def toRadians_def)

subsection \<open>The haversine distance is a metric on the sphere\<close>

lemma haversineDistance_a:
  "haversineDistance lat1 lng1 lat2 lng2 =
     6371 * (2 * Math_atan2 (sqrt (haversine_a lat1 lng1 lat2 lng2))
                            (sqrt (1 - haversine_a lat1 lng1 lat2 lng2)))"
  by (simp add: haversineDistance_def haversine_a_def Let_def)

lemma sin_half_squared: "sin (x / 2) * sin (x / 2) = (1 - cos x) / (2::real)"
  using cos_double_sin [of "x / 2"] by (simp add: power2_eq_square)

lemma toRadians_diff: "toRadians (x - y) = toRadians x - toRadians y"
  by (simp only: toRadians_def left_diff_distrib)

lemma dot3_unit_vec:
  "dot3 (unit_vec lat1 lng1) (unit_vec lat2 lng2) =
     sin (toRadians lat1) * sin (toRadians lat2) +
     cos (toRadians lat1) * cos (toRadians lat2) * cos (toRadians lng2 - toRadians lng1)"
  by (simp add: dot3_def unit_vec_def cos_diff algebra_simps)

lemma haversine_a_dot:
  "haversine_a lat1 lng1 lat2 lng2 = (1 - dot3 (unit_vec lat1 lng1) (unit_vec lat2 lng2)) / 2"
proof -
  have "haversine_a lat1 lng1 lat2 lng2 =
      (1 - cos (toRadians lat2 - toRadians lat1)) / 2 +
      cos (toRadians lat1) * cos (toRadians lat2) * ((1 - cos (toRadians lng2 - toRadians lng1)) / 2)"
    unfolding haversine_a_def toRadians_diff
    by (simp only: mult.assoc sin_half_squared)
  also have "\<dots> = (1 - dot3 (unit_vec lat1 lng1) (unit_vec lat2 lng2)) / 2"
    unfolding dot3_unit_vec by (simp add: cos_diff field_simps)
  finally show ?thesis .
qed

lemma unit_norm_aux:
  fixes c s c' s' :: real
  assumes "c' * c' + s' * s' = 1" "c * c + s * s = 1"
  shows "c * c' * (c * c') + c * s' * (c * s') + s * s = 1"
proof -
  have "c * c' * (c * c') + c * s' * (c * s') + s * s = c * c * (c' * c' + s' * s') + s * s"
    by (simp add: algebra_simps)
  then show ?thesis using assms by simp
qed

lemma dot3_unit_self: "dot3 (unit_vec la lo) (unit_vec la lo) = 1"
  unfolding dot3_def unit_vec_def fst_conv snd_conv
  by (rule unit_norm_aux) simp_all

lemma cauchy_schwarz3: "(dot3 u v)\<^sup>2 \<le> dot3 u u * dot3 v v"
proof -
  obtain a b c where u: "u = (a, b, c)" by (cases u) auto
  obtain x y z where v: "v = (x, y, z)" by (cases v) auto
  have "dot3 u u * dot3 v v - (dot3 u v)\<^sup>2 =
      (a * y - b * x)\<^sup>2 + (a * z - c * x)\<^sup>2 + (b * z - c * y)\<^sup>2"
    by (simp add: u v dot3_def power2_eq_square algebra_simps)
  moreover have "0 \<le> (a * y - b * x)\<^sup>2 + (a * z - c * x)\<^sup>2 + (b * z - c * y)\<^sup>2" by simp
  ultimately show ?thesis by linarith
qed

lemma abs_dot3_le:
  assumes "dot3 u u = 1" "dot3 v v = 1"
  shows "\<bar>dot3 u v\<bar> \<le> 1"
proof -
  have "(dot3 u v)\<^sup>2 \<le> 1" using cauchy_schwarz3 [of u v] assms by simp
  then show ?thesis by (simp add: abs_le_square_iff [of _ 1, simplified])
qed

lemma dot3_unit_bounds:
  "- 1 \<le> dot3 (unit_vec lat1 lng1) (unit_vec lat2 lng2)"
  "dot3 (unit_vec lat1 lng1) (unit_vec lat2 lng2) \<le> 1"
  using abs_dot3_le [OF dot3_unit_self dot3_unit_self, of lat1 lng1 lat2 lng2] by linarith+

lemma haversine_a_bounds:
  "0 \<le> haversine_a lat1 lng1 lat2 lng2" "haversine_a lat1 lng1 lat2 lng2 \<le> 1"
  using dot3_unit_bounds [of lat1 lng1 lat2 lng2] by (simp_all add: haversine_a_dot)

lemma Math_atan2_sin_cos:
  assumes "0 \<le> t" "t \<le> pi / 2"
  shows "Math_atan2 (sin t) (cos t) = t"
proof (cases "t = pi / 2")
  case True
  show ?thesis unfolding True by (simp add: Math_atan2_def)
next
  case False
  then have "t < pi / 2" using assms by simp
  then have "0 < cos t" using assms cos_gt_zero_pi [of t] by linarith
  moreover have "arctan (sin t / cos t) = t"
    using arctan_tan [of t] assms \<open>t < pi / 2\<close> by (simp add: tan_def)
  ultimately show ?thesis by (simp add: Math_atan2_def)
qed

lemma atan2_sqrt_arccos:
  assumes "0 \<le> a" "a \<le> 1"
  shows "2 * Math_atan2 (sqrt a) (sqrt (1 - a)) = arccos (1 - 2 * a)"
proof -
  define t where "t = arccos (1 - 2 * a) / 2"
  have b: "- 1 \<le> 1 - 2 * a" "1 - 2 * a \<le> 1" using assms by simp_all
  have t: "0 \<le> t" "t \<le> pi / 2"
    using arccos_lbound [OF b] arccos_ubound [OF b] by (simp_all add: t_def)
  have "cos (2 * t) = 1 - 2 * a" using cos_arccos [OF b] by (simp add: t_def)
  then have s2: "(sin t)\<^sup>2 = a" using cos_double_sin [of t] by simp
  then have c2: "(cos t)\<^sup>2 = 1 - a" using cos_squared_eq [of t] by simp
  have "0 \<le> sin t" using t sin_ge_zero [of t] pi_ge_zero by linarith
  then have s: "sqrt a = sin t" using s2 by (metis real_sqrt_abs abs_of_nonneg)
  have "0 \<le> cos t" using t cos_ge_zero [of t] by linarith
  then have c: "sqrt (1 - a) = cos t" using c2 by (metis real_sqrt_abs abs_of_nonneg)
  show ?thesis using Math_atan2_sin_cos [OF t] by (simp add: s c t_def)
qed

lemma haversineDistance_central_angle:
  "haversineDistance lat1 lng1 lat2 lng2 = 6371 * central_angle lat1 lng1 lat2 lng2"
proof -
  have "1 - 2 * haversine_a lat1 lng1 lat2 lng2 = dot3 (unit_vec lat1 lng1) (unit_vec lat2 lng2)"
    by (simp add: haversine_a_dot field_simps)
  then show ?thesis
    using atan2_sqrt_arccos [OF haversine_a_bounds, of lat1 lng1 lat2 lng2]
    by (simp add: haversineDistance_a central_angle_def)
qed

lemma haversineDistance_nonneg: "0 \<le> haversineDistance lat1 lng1 lat2 lng2"
  using arccos_lbound [OF dot3_unit_bounds, of lat1 lng1 lat2 lng2]
  by (simp add: haversineDistance_central_angle central_angle_def)

lemma dot3_residual:
  "dot3 (residual p u v) (residual q w v) =
     dot3 u w - q * dot3 u v - p * dot3 v w + p * q * dot3 v v"
  by (simp add: residual_def dot3_def algebra_simps)

lemma dot3_commute: "dot3 u v = dot3 v u"
  by (simp add: dot3_def mult.commute)

lemma angle_cos_bound:
  assumes u: "dot3 u u = 1" and v: "dot3 v v = 1" and w: "dot3 w w = 1"
  shows "dot3 u v * dot3 v w - sqrt (1 - (dot3 u v)\<^sup>2) * sqrt (1 - (dot3 v w)\<^sup>2) \<le> dot3 u w"
proof -
  define p where "p = dot3 u v"
  define q where "q = dot3 v w"
  define r where "r = dot3 u w"
  define u' where "u' = residual p u v"
  define w' where "w' = residual q w v"
  have uw: "dot3 u' w' = r - p * q"
    using dot3_residual [of p u v q w] by (simp add: u'_def w'_def p_def q_def r_def v)
  have uu: "dot3 u' u' = 1 - p\<^sup>2"
    using dot3_residual [of p u v p u] dot3_commute [of v u]
    by (simp add: u'_def p_def u v power2_eq_square)
  have ww: "dot3 w' w' = 1 - q\<^sup>2"
    using dot3_residual [of q w v q w] dot3_commute [of w v]
    by (simp add: w'_def q_def w v power2_eq_square)
  have "(r - p * q)\<^sup>2 \<le> (1 - p\<^sup>2) * (1 - q\<^sup>2)"
    using cauchy_schwarz3 [of u' w'] by (simp add: uw uu ww)
  then have "sqrt ((r - p * q)\<^sup>2) \<le> sqrt ((1 - p\<^sup>2) * (1 - q\<^sup>2))"
    by (rule real_sqrt_le_mono)
  then have "\<bar>r - p * q\<bar> \<le> sqrt (1 - p\<^sup>2) * sqrt (1 - q\<^sup>2)"
    by (simp add: real_sqrt_mult)
  then show ?thesis unfolding p_def [symmetric] q_def [symmetric] r_def [symmetric] by linarith
qed

lemma angle_triangle:
  assumes u: "dot3 u u = 1" and v: "dot3 v v = 1" and w: "dot3 w w = 1"
  shows "arccos (dot3 u w) \<le> arccos (dot3 u v) + arccos (dot3 v w)"
proof -
  define p where "p = dot3 u v"
  define q where "q = dot3 v w"
  define r where "r = dot3 u w"
  have p: "\<bar>p\<bar> \<le> 1" and q: "\<bar>q\<bar> \<le> 1" and r: "\<bar>r\<bar> \<le> 1"
    using abs_dot3_le u v w by (simp_all add: p_def q_def r_def)
  have pb: "- 1 \<le> p" "p \<le> 1" and qb: "- 1 \<le> q" "q \<le> 1" and rb: "- 1 \<le> r" "r \<le> 1"
    using p q r by linarith+
  have "cos (arccos p + arccos q) = p * q - sqrt (1 - p\<^sup>2) * sqrt (1 - q\<^sup>2)"
    by (simp add: cos_add cos_arccos_abs [OF p] cos_arccos_abs [OF q]
        sin_arccos_abs [OF p] sin_arccos_abs [OF q])
  then have c: "cos (arccos p + arccos q) \<le> r"
    using angle_cos_bound [OF u v w] by (simp add: p_def q_def r_def)
  have "arccos r \<le> arccos p + arccos q"
  proof (cases "arccos p + arccos q \<le> pi")
    case True
    have "0 \<le> arccos p + arccos q" using arccos_lbound [OF pb] arccos_lbound [OF qb] by simp
    then have "arccos (cos (arccos p + arccos q)) = arccos p + arccos q"
      using True by (rule arccos_cos)
    moreover have "arccos r \<le> arccos (cos (arccos p + arccos q))"
      using c rb by (intro arccos_le_arccos) simp_all
    ultimately show ?thesis by simp
  next
    case False
    then show ?thesis using arccos_ubound [OF rb] by linarith
  qed
  then show ?thesis by (simp add: p_def q_def r_def)
qed

lemma central_angle_triangle:
  "central_angle lat1 lng1 lat3 lng3 \<le>
     central_angle lat1 lng1 lat2 lng2 + central_angle lat2 lng2 lat3 lng3"
  unfolding central_angle_def by (rule angle_triangle) (rule dot3_unit_self)+

lemma haversineDistance_triangle:
  "haversineDistance lat1 lng1 lat3 lng3 \<le>
     haversineDistance lat1 lng1 lat2 lng2 + haversineDistance lat2 lng2 lat3 lng3"
  using central_angle_triangle [of lat1 lng1 lat3 lng3 lat2 lng2]
  by (simp add: haversineDistance_central_angle)

lemma distanceTo_nonneg: "0 \<le> distanceTo a b"
  by (simp add: distanceTo_def haversineDistance_nonneg)

lemma distanceTo_triangle: "distanceTo a c \<le> distanceTo a b + distanceTo b c"
  by (simp add: distanceTo_def haversineDistance_triangle)

subsection \<open>The haversine distance on numbers with \<^verbatim>\<open>NaN\<close>\<close>

lemma toRadians_number_Num [simp]: "toRadians_number (Num x) = Num (toRadians x)"
  by (simp add: toRadians_number_def number2_def toRadians_def)

lemma toRadians_number_NaN [simp]: "toRadians_number NaN = NaN"
  by (simp add: toRadians_number_def number2_def)

lemma number2_NaN [simp]: "number2 op NaN y = NaN" "number2 op x NaN = NaN"
  by (simp_all add: number2_def split: number.splits)

lemma number2_Num [simp]: "number2 op (Num a) (Num b) = Num (op a b)"
  by (simp add: number2_def)

lemma number1_simps [simp]: "number1 fn (Num a) = Num (fn a)" "number1 fn NaN = NaN"
  by (simp_all add: number1_def)

lemma Math_sqrt_simps [simp]:
  "0 \<le> a \<Longrightarrow> Math_sqrt (Num a) = Num (sqrt a)" "Math_sqrt NaN = NaN"
  by (simp_all add: Math_sqrt_def)

lemma haversineDistance_number_Num:
  "haversineDistance_number (Num lat1) (Num lng1) (Num lat2) (Num lng2) =
     Num (haversineDistance lat1 lng1 lat2 lng2)"
proof -
  have a: "0 \<le> haversine_a lat1 lng1 lat2 lng2" "0 \<le> 1 - haversine_a lat1 lng1 lat2 lng2"
    using haversine_a_bounds [of lat1 lng1 lat2 lng2] by simp_all
  have "haversineDistance_number (Num lat1) (Num lng1) (Num lat2) (Num lng2) =
      number2 (*) (Num 6371) (number2 (*) (Num 2)
        (number2 Math_atan2 (Math_sqrt (Num (haversine_a lat1 lng1 lat2 lng2)))
           (Math_sqrt (number2 (-) (Num 1) (Num (haversine_a lat1 lng1 lat2 lng2))))))"
    by (simp add: haversineDistance_number_def Let_def haversine_a_def)
  also have "\<dots> = Num (6371 * (2 * Math_atan2 (sqrt (haversine_a lat1 lng1 lat2 lng2))
                            (sqrt (1 - haversine_a lat1 lng1 lat2 lng2))))"
    using a by simp
  finally show ?thesis by (simp only: haversineDistance_a)
qed

lemma haversineDistance_number_NaN:
  "haversineDistance_number NaN lng1 lat2 lng2 = NaN"
  "haversineDistance_number lat1 NaN lat2 lng2 = NaN"
  "haversineDistance_number lat1 lng1 NaN lng2 = NaN"
  "haversineDistance_number lat1 lng1 lat2 NaN = NaN"
  by (simp_all add: haversineDistance_number_def Let_def)



subsection \<open>The closest node is the first one at the least distance\<close>

lemma number_less_Num [simp]: "number_less (Num a) (Num b) = (a < b)"
  by (simp add: number_less_def)

lemma number_le_Num [simp]: "number_le (Num a) (Num b) = (a \<le> b)"
  by (simp add: number_le_def)

lemma findClosestNode_loop_Some:
  assumes "\<forall>y\<in>set (c # nds). node_distance hp la lo y \<noteq> NaN"
  shows "\<exists>pre x post. c # nds = pre @ x # post \<and>
     findClosestNode_loop hp la lo nds (Some c, Some (node_distance hp la lo c)) =
       (Some x, Some (node_distance hp la lo x)) \<and>
     (\<forall>y\<in>set pre. number_less (node_distance hp la lo x) (node_distance hp la lo y)) \<and>
     (\<forall>y\<in>set post. number_le (node_distance hp la lo x) (node_distance hp la lo y))"
  using assms
proof (induction nds arbitrary: c)
  case Nil
  have "[c] = [] @ c # []" by simp
  then show ?case by fastforce
next
  case (Cons nd nds)
  define rd where "rd y = (case node_distance hp la lo y of Num d \<Rightarrow> d | NaN \<Rightarrow> 0)" for y
  have num: "node_distance hp la lo y = Num (rd y)" if "y \<in> set (c # nd # nds)" for y
    using Cons.prems that by (cases "node_distance hp la lo y") (auto simp: rd_def)
  have dc: "node_distance hp la lo c = Num (rd c)" and dn: "node_distance hp la lo nd = Num (rd nd)"
    using num by simp_all
  show ?case
  proof (cases "rd nd < rd c")
    case True
    have "\<forall>y\<in>set (nd # nds). node_distance hp la lo y \<noteq> NaN" using Cons.prems by simp
    from Cons.IH [OF this] obtain pre x post where
      s: "nd # nds = pre @ x # post"
      and r: "findClosestNode_loop hp la lo nds (Some nd, Some (node_distance hp la lo nd)) =
        (Some x, Some (node_distance hp la lo x))"
      and p: "\<forall>y\<in>set pre. number_less (node_distance hp la lo x) (node_distance hp la lo y)"
      and q: "\<forall>y\<in>set post. number_le (node_distance hp la lo x) (node_distance hp la lo y)"
      by blast
    have xin: "x \<in> set (c # nd # nds)" using s by (metis in_set_conv_decomp list.set_intros(2))
    have dx: "node_distance hp la lo x = Num (rd x)" by (rule num [OF xin])
    have le: "rd x \<le> rd nd"
    proof (cases pre)
      case Nil
      with s show ?thesis by simp
    next
      case (Cons a list)
      with s p have "number_less (node_distance hp la lo x) (node_distance hp la lo nd)" by auto
      then show ?thesis by (simp add: dx dn)
    qed
    have "c # nd # nds = (c # pre) @ x # post" using s by simp
    moreover have "findClosestNode_loop hp la lo (nd # nds) (Some c, Some (node_distance hp la lo c)) =
        (Some x, Some (node_distance hp la lo x))"
      using True r dc dn by (simp add: below_minDistance_def node_distance_def)
    moreover have "number_less (node_distance hp la lo x) (node_distance hp la lo c)"
      using le True by (simp add: dx dc)
    then have "\<forall>y\<in>set (c # pre). number_less (node_distance hp la lo x) (node_distance hp la lo y)"
      using p by simp
    ultimately show ?thesis using q by blast
  next
    case False
    have "\<forall>y\<in>set (c # nds). node_distance hp la lo y \<noteq> NaN" using Cons.prems by simp
    from Cons.IH [OF this] obtain pre x post where
      s: "c # nds = pre @ x # post"
      and r: "findClosestNode_loop hp la lo nds (Some c, Some (node_distance hp la lo c)) =
        (Some x, Some (node_distance hp la lo x))"
      and p: "\<forall>y\<in>set pre. number_less (node_distance hp la lo x) (node_distance hp la lo y)"
      and q: "\<forall>y\<in>set post. number_le (node_distance hp la lo x) (node_distance hp la lo y)"
      by blast
    have "x \<in> set (c # nds)" using s by (metis in_set_conv_decomp)
    then have xin: "x \<in> set (c # nd # nds)" by auto
    have dx: "node_distance hp la lo x = Num (rd x)" by (rule num [OF xin])
    have run: "findClosestNode_loop hp la lo (nd # nds) (Some c, Some (node_distance hp la lo c)) =
        (Some x, Some (node_distance hp la lo x))"
      using False r dc dn by (simp add: below_minDistance_def node_distance_def)
    show ?thesis
    proof (cases pre)
      case Nil
      with s have xc: "x = c" and "post = nds" by simp_all
      then have "c # nd # nds = [] @ x # (nd # post)" by simp
      moreover have "number_le (node_distance hp la lo x) (node_distance hp la lo nd)"
        using False by (simp add: xc dc dn)
      then have "\<forall>y\<in>set (nd # post). number_le (node_distance hp la lo x) (node_distance hp la lo y)"
        using q by simp
      ultimately show ?thesis using run by fastforce
    next
      case (Cons a pre')
      with s have ac: "a = c" and nds: "nds = pre' @ x # post" by simp_all
      have "number_less (node_distance hp la lo x) (node_distance hp la lo c)" using p Cons ac by simp
      then have xc: "rd x < rd c" by (simp add: dx dc)
      then have "number_less (node_distance hp la lo x) (node_distance hp la lo nd)"
        using False by (simp add: dx dn)
      then have "\<forall>y\<in>set (c # nd # pre'). number_less (node_distance hp la lo x) (node_distance hp la lo y)"
        using p Cons ac by simp
      moreover have "c # nd # nds = (c # nd # pre') @ x # post" using nds by simp
      ultimately show ?thesis using run q by blast
    qed
  qed
qed

lemma findClosestNode_Cons:
  "node_distance hp la lo (snd p) \<noteq> NaN \<Longrightarrow>
   findClosestNode hp (p # ps) la lo =
     fst (findClosestNode_loop hp la lo (map snd ps)
            (Some (snd p), Some (node_distance hp la lo (snd p))))"
  by (simp add: findClosestNode_def below_minDistance_def node_distance_def)

lemma findClosestNode_first:
  assumes "gr \<noteq> []" "\<forall>y\<in>graph_nodes gr. node_distance hp la lo y \<noteq> NaN"
  shows "\<exists>pre x post. map snd gr = pre @ x # post \<and>
        findClosestNode hp gr la lo = Some x \<and>
        (\<forall>y\<in>set pre. number_less (node_distance hp la lo x) (node_distance hp la lo y)) \<and>
        (\<forall>y\<in>set post. number_le (node_distance hp la lo x) (node_distance hp la lo y))"
proof -
  from assms(1) obtain p ps where gr: "gr = p # ps" by (cases gr) auto
  have all: "\<forall>y\<in>set (snd p # map snd ps). node_distance hp la lo y \<noteq> NaN"
    using assms(2) by (simp add: gr graph_nodes_def)
  from findClosestNode_loop_Some [OF all] obtain pre x post where
    s: "snd p # map snd ps = pre @ x # post"
    and r: "findClosestNode_loop hp la lo (map snd ps) (Some (snd p), Some (node_distance hp la lo (snd p))) =
        (Some x, Some (node_distance hp la lo x))"
    and pq: "\<forall>y\<in>set pre. number_less (node_distance hp la lo x) (node_distance hp la lo y)"
      "\<forall>y\<in>set post. number_le (node_distance hp la lo x) (node_distance hp la lo y)"
    by blast
  have "node_distance hp la lo (snd p) \<noteq> NaN" using all by simp
  then have "findClosestNode hp (p # ps) la lo =
      fst (findClosestNode_loop hp la lo (map snd ps)
            (Some (snd p), Some (node_distance hp la lo (snd p))))"
    by (rule findClosestNode_Cons)
  then have "findClosestNode hp gr la lo = Some x"
    unfolding gr r by simp
  moreover have "map snd gr = pre @ x # post" using s by (simp add: gr)
  ultimately show ?thesis using pq by blast
qed




text \<open>
  Claim C4, as it is written, fails at a query position with a component \<^verbatim>\<open>NaN\<close>: every
  distance is \<^verbatim>\<open>NaN\<close>, no comparison \<^verbatim>\<open>distance < minDistance\<close> holds, and the result is
  \<^verbatim>\<open>null\<close> on a graph of two nodes.
\<close>

theorem findClosestNode_NaN_null:
  "tie_graph \<noteq> [] \<and> findClosestNode tie_heap tie_graph NaN (Num 0) = None"
  by (simp add: findClosestNode_def tie_graph_def below_minDistance_def
      haversineDistance_number_NaN)

text \<open>
  Claim C4.  When no distance from the query position to a node of the graph is \<^verbatim>\<open>NaN\<close>,
  \<^verbatim>\<open>findClosestNode\<close> returns \<^verbatim>\<open>null\<close> exactly when the graph has no node.  Otherwise it
  returns a node \<open>x\<close> of the graph such that every node before \<open>x\<close> in insertion order is
  strictly farther from the query position than \<open>x\<close> and every node after \<open>x\<close> is at least as
  far: \<open>x\<close> is at the least distance, and it is the first node there.
\<close>

theorem findClosestNode_first_minimum:
  assumes "\<forall>y\<in>graph_nodes gr. node_distance hp la lo y \<noteq> NaN"
  shows "(findClosestNode hp gr la lo = None \<longleftrightarrow> gr = []) \<and>
   (gr \<noteq> [] \<longrightarrow>
     (\<exists>pre x post. map snd gr = pre @ x # post \<and>
        findClosestNode hp gr la lo = Some x \<and>
        (\<forall>y\<in>set pre. number_less (node_distance hp la lo x) (node_distance hp la lo y)) \<and>
        (\<forall>y\<in>set post. number_le (node_distance hp la lo x) (node_distance hp la lo y))))"
proof (cases "gr = []")
  case True
  then show ?thesis by (simp add: findClosestNode_def)
next
  case False
  from findClosestNode_first [OF False assms] show ?thesis using False by auto
qed

theorem findClosestNode_first_minimum_witness:
  "node_distance tie_heap (Num 0) (Num 0) 0 = Num 0 \<and> node_distance tie_heap (Num 0) (Num 0) 1 = Num 0 \<and>
   tie_graph \<noteq> [] \<and> findClosestNode tie_heap tie_graph (Num 0) (Num 0) \<noteq> None \<and>
   (\<exists>pre x post. map snd tie_graph = pre @ x # post \<and>
      findClosestNode tie_heap tie_graph (Num 0) (Num 0) = Some x \<and>
      (\<forall>y\<in>set pre. number_less (node_distance tie_heap (Num 0) (Num 0) x)
         (node_distance tie_heap (Num 0) (Num 0) y)) \<and>
      (\<forall>y\<in>set post. number_le (node_distance tie_heap (Num 0) (Num 0) x)
         (node_distance tie_heap (Num 0) (Num 0) y)))"
proof -
  have z: "node_distance tie_heap (Num 0) (Num 0) 0 = Num 0"
    "node_distance tie_heap (Num 0) (Num 0) 1 = Num 0"
    by (simp_all add: node_distance_def haversineDistance_number_Num haversineDistance_self
        tie_heap_def mk_node_def)
  have d: "\<forall>y\<in>graph_nodes tie_graph. node_distance tie_heap (Num 0) (Num 0) y \<noteq> NaN"
    using z by (simp add: graph_nodes_def tie_graph_def)
  have ne: "tie_graph \<noteq> []" by (simp add: tie_graph_def)
  from findClosestNode_first_minimum [OF d] ne z show ?thesis by simp
qed

lemma findClosestNode_tie: "findClosestNode tie_heap tie_graph (Num 0) (Num 0) = Some 0"
  by (simp add: findClosestNode_def tie_heap_def tie_graph_def mk_node_def below_minDistance_def
      haversineDistance_number_Num haversineDistance_self)

section \<open>PathSearch: properties\<close>

lemma aStar_loop_Nil: "aStar_loop goal hp [] closedSet = Some (hp, None)"
  by (subst aStar_loop.simps) simp

lemma aStar_loop_found:
  assumes "openSet \<noteq> []" "id_node (hp ! fst (select_current hp openSet)) = id_node (hp ! goal)"
  shows "aStar_loop goal hp openSet closedSet = Some (hp, Some (fst (select_current hp openSet)))"
  using assms
  by (subst aStar_loop.simps) (auto simp: select_current_def split: list.splits prod.splits)

lemma aStar_loop_step:
  assumes "openSet \<noteq> []" "id_node (hp ! fst (select_current hp openSet)) \<noteq> id_node (hp ! goal)"
  shows "aStar_loop goal hp openSet closedSet =
     aStar_loop goal (fst (expand goal hp openSet closedSet)) (snd (expand goal hp openSet closedSet))
       (insert (id_node (hp ! fst (select_current hp openSet))) closedSet)"
  using assms
  by (subst aStar_loop.simps)
     (auto simp: select_current_def expand_def Let_def split: list.splits prod.splits)

lemma lowest_f_gen:
  assumes "ci < length pre" "pre ! ci = c" "\<forall>x\<in>set pre. f (hp ! c) \<le> f (hp ! x)"
    "\<forall>k<ci. f (hp ! c) < f (hp ! (pre ! k))"
  shows "case lowest_f hp xs (length pre) (c, ci) of (c', ci') \<Rightarrow>
     ci' < length (pre @ xs) \<and> (pre @ xs) ! ci' = c' \<and>
     (\<forall>x\<in>set (pre @ xs). f (hp ! c') \<le> f (hp ! x)) \<and>
     (\<forall>k<ci'. f (hp ! c') < f (hp ! ((pre @ xs) ! k)))"
  using assms
proof (induction xs arbitrary: pre c ci)
  case Nil
  then show ?case by simp
next
  case (Cons x xs)
  show ?case
  proof (cases "f (hp ! x) < f (hp ! c)")
    case True
    have "case lowest_f hp xs (length (pre @ [x])) (x, length pre) of (c', ci') \<Rightarrow>
     ci' < length ((pre @ [x]) @ xs) \<and> ((pre @ [x]) @ xs) ! ci' = c' \<and>
     (\<forall>y\<in>set ((pre @ [x]) @ xs). f (hp ! c') \<le> f (hp ! y)) \<and>
     (\<forall>k<ci'. f (hp ! c') < f (hp ! (((pre @ [x]) @ xs) ! k)))"
    proof (rule Cons.IH)
      show "length pre < length (pre @ [x])" by simp
      show "(pre @ [x]) ! length pre = x" by simp
      show "\<forall>y\<in>set (pre @ [x]). f (hp ! x) \<le> f (hp ! y)"
        using Cons.prems True by fastforce
      show "\<forall>k<length pre. f (hp ! x) < f (hp ! ((pre @ [x]) ! k))"
      proof (intro allI impI)
        fix k assume k: "k < length pre"
        then have "pre ! k \<in> set pre" by simp
        then have "f (hp ! c) \<le> f (hp ! (pre ! k))" using Cons.prems by blast
        then show "f (hp ! x) < f (hp ! ((pre @ [x]) ! k))"
          using True k by (simp add: nth_append)
      qed
    qed
    with True show ?thesis by simp
  next
    case False
    have "case lowest_f hp xs (length (pre @ [x])) (c, ci) of (c', ci') \<Rightarrow>
     ci' < length ((pre @ [x]) @ xs) \<and> ((pre @ [x]) @ xs) ! ci' = c' \<and>
     (\<forall>y\<in>set ((pre @ [x]) @ xs). f (hp ! c') \<le> f (hp ! y)) \<and>
     (\<forall>k<ci'. f (hp ! c') < f (hp ! (((pre @ [x]) @ xs) ! k)))"
    proof (rule Cons.IH)
      show "ci < length (pre @ [x])" using Cons.prems by simp
      show "(pre @ [x]) ! ci = c" using Cons.prems by (simp add: nth_append)
      show "\<forall>y\<in>set (pre @ [x]). f (hp ! c) \<le> f (hp ! y)"
        using Cons.prems False by fastforce
      show "\<forall>k<ci. f (hp ! c) < f (hp ! ((pre @ [x]) ! k))"
        using Cons.prems by (simp add: nth_append)
    qed
    with False show ?thesis by simp
  qed
qed

lemma select_current_props:
  assumes "openSet \<noteq> []"
  shows "snd (select_current hp openSet) < length openSet"
    and "openSet ! snd (select_current hp openSet) = fst (select_current hp openSet)"
    and "\<forall>x\<in>set openSet. f (hp ! fst (select_current hp openSet)) \<le> f (hp ! x)"
    and "\<forall>k<snd (select_current hp openSet).
           f (hp ! fst (select_current hp openSet)) < f (hp ! (openSet ! k))"
proof -
  obtain x xs where o: "openSet = x # xs" using assms by (cases openSet) auto
  have "case lowest_f hp xs (length [x]) (x, 0) of (c', ci') \<Rightarrow>
     ci' < length ([x] @ xs) \<and> ([x] @ xs) ! ci' = c' \<and>
     (\<forall>y\<in>set ([x] @ xs). f (hp ! c') \<le> f (hp ! y)) \<and>
     (\<forall>k<ci'. f (hp ! c') < f (hp ! (([x] @ xs) ! k)))"
    by (rule lowest_f_gen) simp_all
  then have *: "case select_current hp openSet of (c', ci') \<Rightarrow>
     ci' < length openSet \<and> openSet ! ci' = c' \<and>
     (\<forall>y\<in>set openSet. f (hp ! c') \<le> f (hp ! y)) \<and>
     (\<forall>k<ci'. f (hp ! c') < f (hp ! (openSet ! k)))"
    by (simp add: select_current_def o)
  show "snd (select_current hp openSet) < length openSet"
    and "openSet ! snd (select_current hp openSet) = fst (select_current hp openSet)"
    and "\<forall>x\<in>set openSet. f (hp ! fst (select_current hp openSet)) \<le> f (hp ! x)"
    and "\<forall>k<snd (select_current hp openSet).
           f (hp ! fst (select_current hp openSet)) < f (hp ! (openSet ! k))"
    using * by (auto split: prod.splits)
qed

lemma length_improve [simp]: "length (improve hp goal cur nb tg) = length hp"
  by (simp add: improve_def Let_def)

lemma improve_other: "a \<noteq> nb \<Longrightarrow> improve hp goal cur nb tg ! a = hp ! a"
  by (simp add: improve_def Let_def)

lemma improve_same:
  "nb < length hp \<Longrightarrow> improve hp goal cur nb tg ! nb =
     (hp ! nb)\<lparr>parent := Some cur, g := tg, h := distanceTo (hp ! nb) (hp ! goal),
                f := tg + distanceTo (hp ! nb) (hp ! goal)\<rparr>"
  by (cases "goal = nb") (simp_all add: improve_def Let_def distanceTo_def)

lemma improve_beyond: "\<not> nb < length hp \<Longrightarrow> improve hp goal cur nb tg = hp"
  by (simp add: improve_def Let_def list_update_beyond)

lemma node_structure_nth_improve:
  "node_structure (improve hp goal cur nb tg ! a) = node_structure (hp ! a)"
proof (cases "a = nb \<and> nb < length hp")
  case True
  then show ?thesis by (simp add: improve_same node_structure_def)
next
  case False
  then show ?thesis
    by (cases "a = nb") (simp_all add: improve_other improve_beyond)
qed

lemma same_structure_refl [simp]: "same_structure hp hp"
  by (simp add: same_structure_def)

lemma same_structure_trans:
  "same_structure a b \<Longrightarrow> same_structure b c \<Longrightarrow> same_structure a c"
  by (simp add: same_structure_def)

lemma same_structure_improve: "same_structure hp (improve hp goal cur nb tg)"
  unfolding same_structure_def
  by (rule nth_equalityI) (simp_all add: node_structure_nth_improve)

lemma same_structure_length: "same_structure hp hp' \<Longrightarrow> length hp' = length hp"
  unfolding same_structure_def by (metis length_map)

lemma nth_beyond: "length xs \<le> n \<Longrightarrow> xs ! n = [] ! (n - length xs)"
proof (induction xs arbitrary: n)
  case Nil
  then show ?case by simp
next
  case (Cons x xs)
  then obtain m where "n = Suc m" by (cases n) auto
  with Cons show ?case by simp
qed

lemma same_structure_nth:
  assumes "same_structure hp hp'"
  shows "node_structure (hp' ! a) = node_structure (hp ! a)"
proof (cases "a < length hp")
  case True
  have "map node_structure hp' ! a = map node_structure hp ! a"
    using assms by (simp add: same_structure_def)
  then show ?thesis using True same_structure_length [OF assms] by simp
next
  case False
  then show ?thesis
    using same_structure_length [OF assms] nth_beyond [of hp a] nth_beyond [of hp' a] by simp
qed

lemma same_structure_fields:
  assumes "same_structure hp hp'"
  shows "lat (hp' ! a) = lat (hp ! a)" "lng (hp' ! a) = lng (hp ! a)"
    "id_node (hp' ! a) = id_node (hp ! a)" "neighbors (hp' ! a) = neighbors (hp ! a)"
  using same_structure_nth [OF assms, of a] by (simp_all add: node_structure_def)

lemma examine_fold:
  "examine goal cl cur nbs st = fold (examine_one goal cl cur) nbs st"
proof (induction nbs arbitrary: st)
  case Nil
  then show ?case by simp
next
  case (Cons nb nbs)
  obtain hp os where st: "st = (hp, os)" by (cases st)
  show ?case unfolding st
    by (simp add: examine_one_def Let_def Cons.IH)
qed

lemma examine_one_cases:
  "examine_one goal cl cur nb (hp, os) =
    (if id_node (hp ! nb) \<in> cl then (hp, os)
     else if find (\<lambda>n. id_node (hp ! n) = id_node (hp ! nb)) os = None
       then (improve hp goal cur nb (g (hp ! cur) + distanceTo (hp ! cur) (hp ! nb)), os @ [nb])
     else if g (hp ! cur) + distanceTo (hp ! cur) (hp ! nb) \<ge> g (hp ! nb) then (hp, os)
     else (improve hp goal cur nb (g (hp ! cur) + distanceTo (hp ! cur) (hp ! nb)), os))"
  by (simp add: examine_one_def Let_def)

lemma fold_prefix_rule:
  assumes "P [] st"
    and "\<And>dn x st. P dn st \<Longrightarrow> x \<in> set xs \<Longrightarrow> P (dn @ [x]) (step x st)"
  shows "P xs (fold step xs st)"
proof -
  have "P (dn @ ys) (fold step ys st')" if "P dn st'" "set ys \<subseteq> set xs" for dn ys st'
    using that
  proof (induction ys arbitrary: dn st')
    case Nil
    then show ?case by simp
  next
    case (Cons y ys)
    have "P (dn @ [y]) (step y st')" using Cons.prems assms(2) by simp
    then have "P ((dn @ [y]) @ ys) (fold step ys (step y st'))"
      using Cons.IH [of "dn @ [y]" "step y st'"] Cons.prems by simp
    then show ?case by simp
  qed
  from this [of "[]" st xs] assms(1) show ?thesis by simp
qed

lemma examine_rule:
  assumes "P [] (hp, os)"
    and "\<And>dn nb hp os. P dn (hp, os) \<Longrightarrow> nb \<in> set nbs \<Longrightarrow>
           P (dn @ [nb]) (examine_one goal cl cur nb (hp, os))"
  shows "P nbs (examine goal cl cur nbs (hp, os))"
  unfolding examine_fold
proof (rule fold_prefix_rule)
  show "P [] (hp, os)" by fact
next
  fix dn x st
  assume "P dn st" "x \<in> set nbs"
  then show "P (dn @ [x]) (examine_one goal cl cur x st)"
    using assms(2) [of dn "fst st" "snd st" x] by simp
qed

lemma closed_under_finite: "closed_under hp N \<Longrightarrow> finite N"
proof -
  assume "closed_under hp N"
  then have "N \<subseteq> {..<length hp}" by (auto simp: closed_under_def)
  then show "finite N" by (rule finite_subset) simp
qed

lemma idf_same: "same_structure hp0 hp \<Longrightarrow> idf hp a = idf hp0 a"
  by (simp add: idf_def same_structure_fields)

lemma examine_one_valid:
  assumes ss: "same_structure hp0 hp" and cu: "closed_under hp0 N"
    and os: "set os \<subseteq> N" and di: "distinct (map (idf hp0) os)"
    and cl: "\<forall>a\<in>set os. idf hp0 a \<notin> cl" and nb: "nb \<in> N"
  shows "case examine_one goal cl cur nb (hp, os) of (hp', os') \<Rightarrow>
     same_structure hp0 hp' \<and> set os' \<subseteq> N \<and> distinct (map (idf hp0) os') \<and>
     (\<forall>a\<in>set os'. idf hp0 a \<notin> cl)"
proof -
  have ids: "\<And>a. id_node (hp ! a) = idf hp0 a"
    using idf_same [OF ss] by (simp add: idf_def)
  have imp: "same_structure hp0 (improve hp goal cur nb tg)" for tg
    using ss same_structure_improve same_structure_trans by blast
  have fnd: "find (\<lambda>n. id_node (hp ! n) = id_node (hp ! nb)) os = None \<Longrightarrow>
      idf hp0 nb \<notin> idf hp0 ` set os"
  proof
    assume n: "find (\<lambda>n. id_node (hp ! n) = id_node (hp ! nb)) os = None"
      and "idf hp0 nb \<in> idf hp0 ` set os"
    then obtain a where a: "a \<in> set os" "idf hp0 a = idf hp0 nb" by auto
    then have "id_node (hp ! a) = id_node (hp ! nb)" using ids by simp
    with n a show False by (auto simp: find_None_iff)
  qed
  consider (closed) "id_node (hp ! nb) \<in> cl"
    | (push) "id_node (hp ! nb) \<notin> cl"
        "find (\<lambda>n. id_node (hp ! n) = id_node (hp ! nb)) os = None"
    | (keep) "id_node (hp ! nb) \<notin> cl"
        "find (\<lambda>n. id_node (hp ! n) = id_node (hp ! nb)) os \<noteq> None"
        "g (hp ! cur) + distanceTo (hp ! cur) (hp ! nb) \<ge> g (hp ! nb)"
    | (better) "id_node (hp ! nb) \<notin> cl"
        "find (\<lambda>n. id_node (hp ! n) = id_node (hp ! nb)) os \<noteq> None"
        "\<not> g (hp ! cur) + distanceTo (hp ! cur) (hp ! nb) \<ge> g (hp ! nb)"
    by blast
  then show ?thesis
  proof cases
    case closed
    then show ?thesis using ss os di cl by (simp add: examine_one_cases)
  next
    case push
    have "idf hp0 nb \<notin> cl" using push(1) ids by simp
    moreover have "idf hp0 nb \<notin> idf hp0 ` set os" using fnd push(2) by simp
    ultimately show ?thesis using push imp os di cl nb by (simp add: examine_one_cases)
  next
    case keep
    then show ?thesis using ss os di cl by (auto simp: examine_one_cases)
  next
    case better
    then show ?thesis using imp os di cl by (auto simp: examine_one_cases)
  qed
qed

lemma select_current_mem:
  "os \<noteq> [] \<Longrightarrow> fst (select_current hp os) \<in> set os"
proof -
  assume ne: "os \<noteq> []"
  have "os ! snd (select_current hp os) \<in> set os"
    using select_current_props(1) [OF ne] by simp
  then show ?thesis using select_current_props(2) [OF ne, of hp] by simp
qed

lemma distinct_map_remove_nth:
  assumes "distinct (map fn xs)" "i < length xs"
  shows "distinct (map fn (take i xs @ drop (Suc i) xs))"
    and "fn (xs ! i) \<notin> fn ` set (take i xs @ drop (Suc i) xs)"
proof -
  have xs: "xs = take i xs @ xs ! i # drop (Suc i) xs"
    using assms(2) by (simp add: id_take_nth_drop)
  have "distinct (map fn (take i xs @ xs ! i # drop (Suc i) xs))"
    using assms(1) xs by simp
  then show "distinct (map fn (take i xs @ drop (Suc i) xs))"
    and "fn (xs ! i) \<notin> fn ` set (take i xs @ drop (Suc i) xs)"
    by auto
qed

lemma set_remove_nth_subset: "set (take i xs @ drop (Suc i) xs) \<subseteq> set xs"
  by (metis Un_mono set_append set_drop_subset set_take_subset sup.idem)

lemma expand_valid:
  assumes V: "valid_state N hp0 hp os cl" and ne: "os \<noteq> []"
  shows "valid_state N hp0 (fst (expand goal hp os cl)) (snd (expand goal hp os cl))
           (insert (idf hp (fst (select_current hp os))) cl)"
proof -
  obtain cur i where sc: "select_current hp os = (cur, i)" by (cases "select_current hp os")
  have i: "i < length os" and cur: "os ! i = cur"
    using select_current_props(1,2) [OF ne, of hp] sc by simp_all
  have ss: "same_structure hp0 hp" and cu: "closed_under hp0 N" and os: "set os \<subseteq> N"
    and di: "distinct (map (idf hp0) os)" and cl: "\<forall>a\<in>set os. idf hp0 a \<notin> cl"
    using V by (simp_all add: valid_state_def)
  have curN: "cur \<in> N" using i cur os by auto
  have idc: "idf hp cur = idf hp0 cur" using idf_same [OF ss] .
  define os1 where "os1 = take i os @ drop (Suc i) os"
  let ?cl1 = "insert (idf hp0 cur) cl"
  have sub: "set os1 \<subseteq> set os" unfolding os1_def by (rule set_remove_nth_subset)
  have di1: "distinct (map (idf hp0) os1)"
    unfolding os1_def by (rule distinct_map_remove_nth(1) [OF di i])
  have notin: "idf hp0 cur \<notin> idf hp0 ` set os1"
    unfolding os1_def using distinct_map_remove_nth(2) [OF di i] cur by simp
  have os1: "set os1 \<subseteq> N" using sub os by blast
  have cl1: "\<forall>a\<in>set os1. idf hp0 a \<notin> ?cl1"
  proof
    fix a assume a: "a \<in> set os1"
    have "idf hp0 a \<noteq> idf hp0 cur" using notin a by (metis imageI)
    moreover have "idf hp0 a \<notin> cl" using cl sub a by blast
    ultimately show "idf hp0 a \<notin> ?cl1" by simp
  qed
  have nbs: "set (neighbors (hp ! cur)) \<subseteq> N"
    using cu curN same_structure_fields(4) [OF ss] by (simp add: closed_under_def)
  define P where "P = (\<lambda>(dn::addr list) (st::heap \<times> addr list). case st of (hp', os') \<Rightarrow>
     same_structure hp0 hp' \<and> set os' \<subseteq> N \<and> distinct (map (idf hp0) os') \<and>
     (\<forall>a\<in>set os'. idf hp0 a \<notin> ?cl1))"
  have "P (neighbors (hp ! cur)) (examine goal ?cl1 cur (neighbors (hp ! cur)) (hp, os1))"
  proof (rule examine_rule [where P = P])
    show "P [] (hp, os1)" using ss os1 di1 cl1 by (simp add: P_def)
  next
    fix dn nb hp' os'
    assume "P dn (hp', os')" "nb \<in> set (neighbors (hp ! cur))"
    then have "same_structure hp0 hp'" "set os' \<subseteq> N" "distinct (map (idf hp0) os')"
      "\<forall>a\<in>set os'. idf hp0 a \<notin> ?cl1" "nb \<in> N"
      using nbs by (auto simp: P_def)
    from examine_one_valid [OF this(1) cu this(2-5)]
    show "P (dn @ [nb]) (examine_one goal ?cl1 cur nb (hp', os'))"
      by (simp add: P_def)
  qed
  then have "P (neighbors (hp ! cur)) (expand goal hp os cl)"
    by (simp add: expand_def sc idf_def idc [unfolded idf_def] os1_def)
  then show ?thesis
    using cu by (simp add: P_def sc idc valid_state_def split_beta)
qed

lemma expand_measure:
  assumes V: "valid_state N hp0 hp os cl" and ne: "os \<noteq> []"
  shows "card (idf hp0 ` N - insert (idf hp (fst (select_current hp os))) cl) <
         card (idf hp0 ` N - cl)"
proof -
  let ?cur = "fst (select_current hp os)"
  have ss: "same_structure hp0 hp" and cu: "closed_under hp0 N" and os: "set os \<subseteq> N"
    and cl: "\<forall>a\<in>set os. idf hp0 a \<notin> cl"
    using V by (simp_all add: valid_state_def)
  have m: "?cur \<in> set os" using select_current_mem [OF ne] .
  then have curN: "?cur \<in> N" using os by auto
  have idc: "idf hp ?cur = idf hp0 ?cur" using idf_same [OF ss] by simp
  have fin: "finite (idf hp0 ` N - cl)" using closed_under_finite [OF cu] by simp
  have "idf hp0 ?cur \<in> idf hp0 ` N - cl" using curN cl m by auto
  then have "idf hp0 ` N - insert (idf hp0 ?cur) cl \<subset> idf hp0 ` N - cl" by auto
  then show ?thesis using fin idc by (simp add: psubset_card_mono)
qed

lemma aStar_loop_rule:
  assumes V: "valid_state N hp0 hp os cl"
    and I: "I hp os cl"
    and step: "\<And>hp os cl. valid_state N hp0 hp os cl \<Longrightarrow> I hp os cl \<Longrightarrow> os \<noteq> [] \<Longrightarrow>
       id_node (hp ! fst (select_current hp os)) \<noteq> id_node (hp ! goal) \<Longrightarrow>
       I (fst (expand goal hp os cl)) (snd (expand goal hp os cl))
         (insert (idf hp (fst (select_current hp os))) cl)"
  shows "\<exists>hp' os' cl'. valid_state N hp0 hp' os' cl' \<and> I hp' os' cl' \<and>
     ((os' = [] \<and> aStar_loop goal hp os cl = Some (hp', None)) \<or>
      (os' \<noteq> [] \<and> id_node (hp' ! fst (select_current hp' os')) = id_node (hp' ! goal) \<and>
       aStar_loop goal hp os cl = Some (hp', Some (fst (select_current hp' os')))))"
  using V I
proof (induction "card (idf hp0 ` N - cl)" arbitrary: hp os cl rule: less_induct)
  case less
  show ?case
  proof (cases "os = []")
    case True
    have "valid_state N hp0 hp os cl \<and> I hp os cl \<and>
      ((os = [] \<and> aStar_loop goal hp os cl = Some (hp, None)) \<or>
       (os \<noteq> [] \<and> id_node (hp ! fst (select_current hp os)) = id_node (hp ! goal) \<and>
        aStar_loop goal hp os cl = Some (hp, Some (fst (select_current hp os)))))"
      using less.prems True aStar_loop_Nil by simp
    then show ?thesis by blast
  next
    case ne: False
    show ?thesis
    proof (cases "id_node (hp ! fst (select_current hp os)) = id_node (hp ! goal)")
      case True
      have "valid_state N hp0 hp os cl \<and> I hp os cl \<and>
        ((os = [] \<and> aStar_loop goal hp os cl = Some (hp, None)) \<or>
         (os \<noteq> [] \<and> id_node (hp ! fst (select_current hp os)) = id_node (hp ! goal) \<and>
          aStar_loop goal hp os cl = Some (hp, Some (fst (select_current hp os)))))"
        using less.prems ne True aStar_loop_found [OF ne True] by simp
      then show ?thesis by blast
    next
      case False
      let ?hp2 = "fst (expand goal hp os cl)" and ?os2 = "snd (expand goal hp os cl)"
      let ?cl1 = "insert (idf hp (fst (select_current hp os))) cl"
      have V2: "valid_state N hp0 ?hp2 ?os2 ?cl1" using expand_valid [OF less.prems(1) ne] .
      have I2: "I ?hp2 ?os2 ?cl1" using step [OF less.prems ne False] .
      have "card (idf hp0 ` N - ?cl1) < card (idf hp0 ` N - cl)"
        using expand_measure [OF less.prems(1) ne] .
      from less.hyps [OF this V2 I2]
      show ?thesis using aStar_loop_step [OF ne False, of cl] by (simp add: idf_def)
    qed
  qed
qed

lemma same_structure_sym: "same_structure a b \<Longrightarrow> same_structure b a"
  by (simp add: same_structure_def)

lemma closed_under_same:
  assumes "same_structure hp hp'" "closed_under hp N"
  shows "closed_under hp' N"
  unfolding closed_under_def
proof
  fix a assume a: "a \<in> N"
  then have l: "a < length hp" and n: "set (neighbors (hp ! a)) \<subseteq> N"
    using assms(2) by (simp_all add: closed_under_def)
  show "a < length hp' \<and> set (neighbors (hp' ! a)) \<subseteq> N"
    using l n same_structure_length [OF assms(1)] same_structure_fields(4) [OF assms(1)]
    by simp
qed

lemma same_structure_update:
  assumes "node_structure (upd (hp ! a)) = node_structure (hp ! a)"
  shows "same_structure hp (hp[a := upd (hp ! a)])"
  unfolding same_structure_def
proof (rule nth_equalityI)
  show "length (map node_structure (hp[a := upd (hp ! a)])) = length (map node_structure hp)"
    by simp
next
  fix i assume "i < length (map node_structure (hp[a := upd (hp ! a)]))"
  then have i: "i < length hp" by simp
  show "map node_structure (hp[a := upd (hp ! a)]) ! i = map node_structure hp ! i"
    using i assms by (cases "i = a") simp_all
qed

lemma same_structure_aStar_init: "same_structure hp (aStar_init hp s gl)"
proof -
  have 1: "same_structure hp (hp[s := (hp ! s)\<lparr>g := 0\<rparr>])" for hp :: heap
    by (rule same_structure_update) (simp add: node_structure_def)
  have 2: "same_structure hp (hp[s := (hp ! s)\<lparr>h := v\<rparr>])" for hp :: heap and v
    by (rule same_structure_update) (simp add: node_structure_def)
  have 3: "same_structure hp (hp[s := (hp ! s)\<lparr>f := v\<rparr>])" for hp :: heap and v
    by (rule same_structure_update) (simp add: node_structure_def)
  show ?thesis
    unfolding aStar_init_def Let_def
    by (rule same_structure_trans [OF 1 same_structure_trans [OF 2 3]])
qed

lemma valid_state_init:
  assumes "closed_under hp N" "s \<in> N"
  shows "valid_state N (aStar_init hp s gl) (aStar_init hp s gl) [s] {}"
  using assms closed_under_same [OF same_structure_aStar_init]
  by (simp add: valid_state_def)

lemma aStar_search_terminates:
  assumes "closed_under hp N" "s \<in> N"
  shows "\<exists>hp' r. aStar_search hp s gl = Some (hp', r) \<and> same_structure hp hp'"
proof -
  let ?hp0 = "aStar_init hp s gl"
  have "\<exists>hp' os' cl'. valid_state N ?hp0 hp' os' cl' \<and> True \<and>
     ((os' = [] \<and> aStar_loop gl ?hp0 [s] {} = Some (hp', None)) \<or>
      (os' \<noteq> [] \<and> id_node (hp' ! fst (select_current hp' os')) = id_node (hp' ! gl) \<and>
       aStar_loop gl ?hp0 [s] {} = Some (hp', Some (fst (select_current hp' os')))))"
    by (rule aStar_loop_rule [where I = "\<lambda>_ _ _. True"]) (simp_all add: valid_state_init [OF assms])
  then obtain hp' os' cl' r where
    "valid_state N ?hp0 hp' os' cl'" "aStar_loop gl ?hp0 [s] {} = Some (hp', r)"
    by blast
  then have "aStar_search hp s gl = Some (hp', r)" "same_structure ?hp0 hp'"
    by (simp_all add: aStar_search_def valid_state_def)
  then have "aStar_search hp s gl = Some (hp', r) \<and> same_structure hp hp'"
    using same_structure_trans [OF same_structure_aStar_init] by blast
  then show ?thesis by blast
qed

text \<open>
  Claim C10.  For a graph whose nodes have their neighbors in the graph, and nodes \<open>start\<close>
  and \<open>goal\<close> of it, the search of \<^verbatim>\<open>aStar(start, goal)\<close> ends, and the heap it leaves, the only
  heap that \<^verbatim>\<open>aStar\<close> can return, holds the same nodes with the same \<^verbatim>\<open>id\<close>, \<^verbatim>\<open>lat\<close>, \<^verbatim>\<open>lng\<close>
  and \<^verbatim>\<open>neighbors\<close>: only \<^verbatim>\<open>g\<close>, \<^verbatim>\<open>h\<close>, \<^verbatim>\<open>f\<close> and \<^verbatim>\<open>parent\<close> may differ.  The map of the graph is
  no argument of \<^verbatim>\<open>aStar\<close>: it keeps its ids and its nodes.
\<close>

theorem aStar_preserves_structure:
  assumes "closed_graph hp gr" "start \<in> graph_nodes gr" "goal \<in> graph_nodes gr"
  shows "(\<exists>hp' r. aStar_search hp start goal = Some (hp', r) \<and> same_structure hp hp') \<and>
     (\<forall>hp' pth. aStar hp (Some start) (Some goal) = Some (hp', pth) \<longrightarrow> same_structure hp hp')"
proof -
  obtain hp1 r where 1: "aStar_search hp start goal = Some (hp1, r)" "same_structure hp hp1"
    using aStar_search_terminates [of hp "graph_nodes gr" start goal] assms
    by (auto simp: closed_graph_def)
  have "same_structure hp hp'" if "aStar hp (Some start) (Some goal) = Some (hp', pth)" for hp' pth
    using that 1 by (auto simp: aStar_def split: option.splits)
  with 1 show ?thesis by blast
qed

text \<open>
  Claim C9.  When the start or the goal is \<^verbatim>\<open>null\<close>, \<^verbatim>\<open>aStar\<close> returns \<^verbatim>\<open>null\<close> and leaves
  the heap as it is.
\<close>

theorem aStar_missing_node:
  "aStar hp None goal = Some (hp, None) \<and> aStar hp start None = Some (hp, None)"
  by (simp add: aStar_def split: option.splits)

lemma aStar_init_beyond: "\<not> s < length hp \<Longrightarrow> aStar_init hp s gl = hp"
  by (simp add: aStar_init_def Let_def list_update_beyond)

lemma aStar_init_nth_start:
  "s < length hp \<Longrightarrow> aStar_init hp s gl ! s =
     (hp ! s)\<lparr>g := 0, h := distanceTo (hp ! s) (hp ! gl), f := distanceTo (hp ! s) (hp ! gl)\<rparr>"
  by (cases "gl = s") (simp_all add: aStar_init_def Let_def distanceTo_def)

lemma aStar_init_nth_other: "a \<noteq> s \<Longrightarrow> aStar_init hp s gl ! a = hp ! a"
  by (simp add: aStar_init_def Let_def)

lemma aStar_init_parent: "parent (aStar_init hp s gl ! a) = parent (hp ! a)"
  by (cases "s < length hp"; cases "a = s")
     (simp_all add: aStar_init_beyond aStar_init_nth_start aStar_init_nth_other)

lemma aStar_init_position: "position (aStar_init hp s gl ! a) = position (hp ! a)"
  by (cases "s < length hp"; cases "a = s")
     (simp_all add: aStar_init_beyond aStar_init_nth_start aStar_init_nth_other position_def)

text \<open>
  Claim C6.  For a node \<open>s\<close> whose \<^verbatim>\<open>parent\<close> is \<^verbatim>\<open>null\<close>, \<^verbatim>\<open>aStar(s, s)\<close> returns the path
  that holds the position of \<open>s\<close> and nothing else.
\<close>

theorem aStar_same_node:
  assumes "parent (hp ! s) = None"
  shows "aStar hp (Some s) (Some s) = Some (aStar_init hp s s, Some [position (hp ! s)])"
proof -
  let ?hp0 = "aStar_init hp s s"
  have sel: "select_current ?hp0 [s] = (s, 0)" by (simp add: select_current_def)
  have "aStar_loop s ?hp0 [s] {} = Some (?hp0, Some s)"
    using aStar_loop_found [of "[s]" ?hp0 s "{}"] by (simp add: sel)
  moreover have "reconstructPath ?hp0 (Some s) = Some [position (hp ! s)]"
    unfolding reconstructPath_def
    apply (subst reconstructPath_loop.simps)
    apply (simp add: aStar_init_parent assms)
    apply (subst reconstructPath_loop.simps)
    using aStar_init_position [of hp s s s]
    apply (simp add: position_def)
    done
  ultimately show ?thesis by (simp add: aStar_def aStar_search_def)
qed

lemma graph_ok_inj:
  assumes "graph_ok hp gr" "a \<in> graph_nodes gr" "b \<in> graph_nodes gr"
    "id_node (hp ! a) = id_node (hp ! b)"
  shows "a = b"
proof -
  obtain ka kb where k: "(ka, a) \<in> set gr" "(kb, b) \<in> set gr"
    using assms(2,3) by (auto simp: graph_nodes_def)
  then have "id_node (hp ! a) = ka" "id_node (hp ! b) = kb"
    using assms(1) by (auto simp: graph_ok_def)
  then have "ka = kb" using assms(4) by simp
  moreover have "distinct (map fst gr)" using assms(1) by (simp add: graph_ok_def)
  ultimately show ?thesis using k by (metis map_of_is_SomeI option.inject)
qed

lemma is_path_same: "same_structure hp hp' \<Longrightarrow> is_path hp' p = is_path hp p"
  by (induction hp p rule: is_path.induct) (simp_all add: same_structure_fields)

lemma distanceTo_same:
  "same_structure hp hp' \<Longrightarrow> distanceTo (hp' ! a) (hp' ! b) = distanceTo (hp ! a) (hp ! b)"
  by (simp add: distanceTo_def same_structure_fields)

lemma path_cost_same: "same_structure hp hp' \<Longrightarrow> path_cost hp' p = path_cost hp p"
  by (induction hp p rule: path_cost.induct) (simp_all add: distanceTo_same)

lemma path_from_to_same:
  "same_structure hp hp' \<Longrightarrow> path_from_to hp' a b p = path_from_to hp a b p"
  by (simp add: path_from_to_def is_path_same)

lemma is_path_snoc:
  "is_path hp p \<Longrightarrow> p \<noteq> [] \<Longrightarrow> b \<in> set (neighbors (hp ! last p)) \<Longrightarrow> is_path hp (p @ [b])"
  by (induction hp p rule: is_path.induct) simp_all

lemma path_from_to_snoc:
  "path_from_to hp s a p \<Longrightarrow> b \<in> set (neighbors (hp ! a)) \<Longrightarrow> path_from_to hp s b (p @ [b])"
  by (auto simp: path_from_to_def is_path_snoc)

lemma path_from_to_refl: "path_from_to hp s s [s]"
  by (simp add: path_from_to_def)

lemma examine_one_open_subset:
  "set (snd (examine_one goal cl cur nb (hp, os))) \<subseteq> insert nb (set os)"
  by (auto simp: examine_one_cases)

lemma examine_open_subset:
  "set (snd (examine goal cl cur nbs (hp, os))) \<subseteq> set os \<union> set nbs"
proof -
  define P where "P = (\<lambda>(dn::addr list) (st::heap \<times> addr list). set (snd st) \<subseteq> set os \<union> set nbs)"
  have "P nbs (examine goal cl cur nbs (hp, os))"
  proof (rule examine_rule [where P = P])
    show "P [] (hp, os)" by (simp add: P_def)
  next
    fix dn nb hp' os'
    assume "P dn (hp', os')" "nb \<in> set nbs"
    then show "P (dn @ [nb]) (examine_one goal cl cur nb (hp', os'))"
      using examine_one_open_subset [of goal cl cur nb hp' os'] by (auto simp: P_def)
  qed
  then show ?thesis by (simp add: P_def)
qed

lemma expand_open_subset:
  "set (snd (expand goal hp os cl)) \<subseteq> set os \<union> set (neighbors (hp ! fst (select_current hp os)))"
proof -
  obtain cur i where sc: "select_current hp os = (cur, i)" by (cases "select_current hp os")
  have "set (snd (expand goal hp os cl)) \<subseteq>
     set (take i os @ drop (Suc i) os) \<union> set (neighbors (hp ! cur))"
    unfolding expand_def sc by (simp only: prod.case Let_def) (rule examine_open_subset)
  then show ?thesis using set_remove_nth_subset [of i os] sc by auto
qed

lemma aStar_search_unreachable:
  assumes cu: "closed_under hp N" and s: "s \<in> N" and gl: "gl \<in> N"
    and inj: "\<And>a. a \<in> N \<Longrightarrow> id_node (hp ! a) = id_node (hp ! gl) \<Longrightarrow> a = gl"
    and un: "\<forall>p. \<not> path_from_to hp s gl p"
  shows "\<exists>hp'. aStar_search hp s gl = Some (hp', None)"
proof -
  let ?hp0 = "aStar_init hp s gl"
  define I where "I = (\<lambda>(hp'::heap) (os::addr list) (cl::string set).
     \<forall>a\<in>set os. \<exists>p. path_from_to hp s a p)"
  have ss0: "same_structure hp ?hp0" by (rule same_structure_aStar_init)
  have "\<exists>hp' os' cl'. valid_state N ?hp0 hp' os' cl' \<and> I hp' os' cl' \<and>
     ((os' = [] \<and> aStar_loop gl ?hp0 [s] {} = Some (hp', None)) \<or>
      (os' \<noteq> [] \<and> id_node (hp' ! fst (select_current hp' os')) = id_node (hp' ! gl) \<and>
       aStar_loop gl ?hp0 [s] {} = Some (hp', Some (fst (select_current hp' os')))))"
  proof (rule aStar_loop_rule [where I = I])
    show "valid_state N ?hp0 ?hp0 [s] {}" by (rule valid_state_init [OF cu s])
    show "I ?hp0 [s] {}" using path_from_to_refl by (auto simp: I_def)
  next
    fix hp' os cl
    assume V: "valid_state N ?hp0 hp' os cl" and I: "I hp' os cl" and ne: "os \<noteq> []"
    let ?cur = "fst (select_current hp' os)"
    have ss: "same_structure hp hp'"
      using V same_structure_trans [OF ss0] by (simp add: valid_state_def)
    have cur: "?cur \<in> set os" by (rule select_current_mem [OF ne])
    then obtain pc where pc: "path_from_to hp s ?cur pc" using I by (auto simp: I_def)
    have "\<exists>p. path_from_to hp s a p" if a: "a \<in> set (snd (expand gl hp' os cl))" for a
    proof -
      from a expand_open_subset [of gl hp' os cl]
      consider "a \<in> set os" | "a \<in> set (neighbors (hp' ! ?cur))" by blast
      then show ?thesis
      proof cases
        case 1
        then show ?thesis using I by (auto simp: I_def)
      next
        case 2
        then have "a \<in> set (neighbors (hp ! ?cur))" using same_structure_fields(4) [OF ss] by simp
        then show ?thesis using path_from_to_snoc [OF pc] by blast
      qed
    qed
    then show "I (fst (expand gl hp' os cl)) (snd (expand gl hp' os cl))
        (insert (idf hp' ?cur) cl)"
      by (simp add: I_def)
  qed
  then obtain hp' os' cl' where V: "valid_state N ?hp0 hp' os' cl'" and I: "I hp' os' cl'"
    and r: "(os' = [] \<and> aStar_loop gl ?hp0 [s] {} = Some (hp', None)) \<or>
      (os' \<noteq> [] \<and> id_node (hp' ! fst (select_current hp' os')) = id_node (hp' ! gl) \<and>
       aStar_loop gl ?hp0 [s] {} = Some (hp', Some (fst (select_current hp' os'))))"
    by blast
  have "\<not> (os' \<noteq> [] \<and> id_node (hp' ! fst (select_current hp' os')) = id_node (hp' ! gl))"
  proof
    assume c: "os' \<noteq> [] \<and> id_node (hp' ! fst (select_current hp' os')) = id_node (hp' ! gl)"
    let ?c = "fst (select_current hp' os')"
    have ss: "same_structure hp hp'"
      using V same_structure_trans [OF ss0] by (simp add: valid_state_def)
    have m: "?c \<in> set os'" using c select_current_mem by blast
    then have "?c \<in> N" using V by (auto simp: valid_state_def)
    moreover have "id_node (hp ! ?c) = id_node (hp ! gl)"
      using c same_structure_fields(3) [OF ss] by simp
    ultimately have "?c = gl" using inj by blast
    then show False using I m un by (auto simp: I_def)
  qed
  with r show ?thesis by (auto simp: aStar_search_def)
qed

text \<open>
  Claim C5.  In a graph whose nodes have their neighbors in the graph and in which no node
  but \<open>goal\<close> carries the id of \<open>goal\<close>, when no path along neighbor edges leads from \<open>start\<close>
  to \<open>goal\<close>, \<^verbatim>\<open>aStar(start, goal)\<close> returns \<^verbatim>\<open>null\<close>; and the loop returns \<^verbatim>\<open>null\<close> whenever
  it meets an empty open set.
\<close>

theorem aStar_disconnected:
  assumes "closed_graph hp gr" "start \<in> graph_nodes gr" "goal \<in> graph_nodes gr"
    and "\<forall>a\<in>graph_nodes gr. id_node (hp ! a) = id_node (hp ! goal) \<longrightarrow> a = goal"
    and "\<forall>p. \<not> path_from_to hp start goal p"
  shows "(\<exists>hp'. aStar hp (Some start) (Some goal) = Some (hp', None)) \<and>
         (\<forall>hp1 closedSet. aStar_loop goal hp1 [] closedSet = Some (hp1, None))"
proof -
  have "\<exists>hp'. aStar_search hp start goal = Some (hp', None)"
  proof (rule aStar_search_unreachable [where N = "graph_nodes gr"])
    show "closed_under hp (graph_nodes gr)"
      using assms(1) by (simp add: closed_graph_def)
    show "\<And>a. a \<in> graph_nodes gr \<Longrightarrow> id_node (hp ! a) = id_node (hp ! goal) \<Longrightarrow> a = goal"
      using assms(4) by blast
  qed (use assms in simp_all)
  then show ?thesis using aStar_loop_Nil by (auto simp: aStar_def)
qed

subsection \<open>The properties on the example graphs\<close>

lemma equator_graph_closed: "closed_graph equator_heap equator_graph"
  by (simp add: closed_graph_def closed_under_def graph_nodes_def equator_graph_def
      equator_heap_def mk_node_def)

lemma equator_graph_ok: "graph_ok equator_heap equator_graph"
  using equator_graph_closed
  by (simp add: graph_ok_def equator_graph_def equator_heap_def mk_node_def)

lemma equator_line:
  "is_path equator_heap p \<Longrightarrow> p \<noteq> [] \<Longrightarrow> hd p < 3 \<Longrightarrow> last p < 3"
proof (induction equator_heap p rule: is_path.induct)
  case (1 a b p)
  have "b < 3" using "1.prems"(1,3)
    by (auto simp: equator_heap_def mk_node_def nth_Cons split: nat.splits)
  then show ?case using 1 by simp
qed simp_all

lemma equator_disconnected: "\<forall>p. \<not> path_from_to equator_heap 0 3 p"
  using equator_line by (fastforce simp: path_from_to_def)

theorem aStar_preserves_structure_witness:
  "closed_graph equator_heap equator_graph \<and> 0 \<in> graph_nodes equator_graph \<and>
   2 \<in> graph_nodes equator_graph \<and>
   (\<exists>hp' r. aStar_search equator_heap 0 2 = Some (hp', r) \<and> same_structure equator_heap hp')"
  using aStar_preserves_structure [of equator_heap equator_graph 0 2] equator_graph_closed
  by (simp add: graph_nodes_def equator_graph_def)

theorem aStar_same_node_witness:
  "parent (tie_heap ! 0) = None \<and>
   aStar tie_heap (Some 0) (Some 0) = Some (aStar_init tie_heap 0 0, Some [position (tie_heap ! 0)])"
  using aStar_same_node [of tie_heap 0] by (simp add: tie_heap_def mk_node_def)

theorem aStar_disconnected_witness:
  "closed_graph equator_heap equator_graph \<and> 0 \<in> graph_nodes equator_graph \<and>
   3 \<in> graph_nodes equator_graph \<and> id_node (equator_heap ! 3) = ''d'' \<and>
   map (\<lambda>a. id_node (equator_heap ! a)) [0, 1, 2] = [''a'', ''b'', ''c''] \<and>
   (\<forall>p. \<not> path_from_to equator_heap 0 3 p) \<and>
   (\<exists>hp'. aStar equator_heap (Some 0) (Some 3) = Some (hp', None))"
proof -
  have ids: "id_node (equator_heap ! 3) = ''d''"
    "map (\<lambda>a. id_node (equator_heap ! a)) [0, 1, 2] = [''a'', ''b'', ''c'']"
    by (simp_all add: equator_heap_def mk_node_def)
  have n: "0 \<in> graph_nodes equator_graph" "3 \<in> graph_nodes equator_graph"
    by (simp_all add: graph_nodes_def equator_graph_def)
  have u: "\<forall>a\<in>graph_nodes equator_graph.
      id_node (equator_heap ! a) = id_node (equator_heap ! 3) \<longrightarrow> a = 3"
    by (simp add: graph_nodes_def equator_graph_def equator_heap_def mk_node_def)
  from aStar_disconnected [OF equator_graph_closed n u equator_disconnected]
  show ?thesis using equator_graph_closed n ids equator_disconnected by blast
qed

subsection \<open>Searches on the example graphs\<close>

lemma haversineDistance_quarter:
  "haversineDistance 0 0 0 90 = equator_quarter" "haversineDistance 0 90 0 0 = equator_quarter"
proof -
  have r: "toRadians 90 = pi / 2" "toRadians 0 = 0" by (simp_all add: toRadians_def)
  have "dot3 (unit_vec 0 0) (unit_vec 0 90) = 0"
    unfolding dot3_unit_vec r by simp
  then show "haversineDistance 0 0 0 90 = equator_quarter"
    by (simp add: haversineDistance_central_angle central_angle_def equator_quarter_def)
  then show "haversineDistance 0 90 0 0 = equator_quarter"
    using haversineDistance_commute [of 0 90 0 0] by simp
qed

lemma equator_quarter_pos: "0 < equator_quarter"
  by (simp add: equator_quarter_def)



lemma pair_graph_ok: "graph_ok pair_heap pair_graph"
  by (simp add: graph_ok_def closed_graph_def closed_under_def graph_nodes_def pair_graph_def
      pair_heap_def mk_node_def)






lemma detour_build: "detour_build = (detour_heap, detour_graph)"
  by (simp add: detour_build_def detour_heap_def detour_graph_def addNode_def addEdge_def
      getNode_def push_neighbor_def Node_new_def mk_node_def Let_def)

lemma twin_build: "twin_build = (twin_heap, twin_graph)"
  by (simp add: twin_build_def twin_heap_def twin_graph_def addNode_def addEdge_def
      getNode_def push_neighbor_def Node_new_def mk_node_def Let_def)

lemma detour_aStar:
  "map_option snd (aStar detour_heap (Some 1) (Some 2)) =
     Some (Some [\<lparr>lat = 0, lng = 0\<rparr>, \<lparr>lat = 0, lng = 90\<rparr>, \<lparr>lat = 0, lng = 0\<rparr>])"
proof -
  have i: "aStar_init detour_heap 1 2 = detour_heap"
    by (simp add: aStar_init_def detour_heap_def mk_node_def distanceTo_def haversineDistance_self)
  define hp2 where "hp2 =
     [\<lparr>lat = 0, lng = 90, id_node = ''x'', g = equator_quarter, h = equator_quarter,
        f = equator_quarter + equator_quarter, parent = Some 1, neighbors = [1, 2]\<rparr>,
      mk_node 0 0 ''s'' [0, 3],
      \<lparr>lat = 0, lng = 0, id_node = ''t'', g = equator_quarter + equator_quarter, h = 0,
        f = equator_quarter + equator_quarter, parent = Some 0, neighbors = [0, 3]\<rparr>,
      mk_node 0 0 ''x'' [1, 2]]"
  have s: "aStar_search detour_heap 1 2 = Some (hp2, Some 2)"
    unfolding aStar_search_def i
    apply (subst aStar_loop.simps)
    apply (simp add: detour_heap_def mk_node_def improve_def distanceTo_def
        haversineDistance_quarter haversineDistance_self)
    apply (subst aStar_loop.simps)
    apply (simp add: improve_def distanceTo_def haversineDistance_quarter haversineDistance_self)
    apply (subst aStar_loop.simps)
    apply (simp add: hp2_def mk_node_def Let_def)
    done
  have "reconstructPath hp2 (Some 2) =
      Some [\<lparr>lat = 0, lng = 0\<rparr>, \<lparr>lat = 0, lng = 90\<rparr>, \<lparr>lat = 0, lng = 0\<rparr>]"
    unfolding reconstructPath_def
    apply (subst reconstructPath_loop.simps)
    apply (simp add: hp2_def mk_node_def)
    apply (subst reconstructPath_loop.simps)
    apply simp
    apply (subst reconstructPath_loop.simps)
    apply simp
    apply (subst reconstructPath_loop.simps)
    apply simp
    done
  then show ?thesis using s by (simp add: aStar_def)
qed

lemma twin_aStar:
  "map_option snd (aStar twin_heap (Some 1) (Some 2)) =
     Some (Some [\<lparr>lat = 0, lng = 0\<rparr>, \<lparr>lat = 0, lng = 90\<rparr>])"
proof -
  define hp1 where "hp1 =
     [\<lparr>lat = 0, lng = 90, id_node = ''g'', g = equator_quarter, h = equator_quarter,
        f = equator_quarter + equator_quarter, parent = Some 1, neighbors = [1]\<rparr>,
      mk_node 0 0 ''s'' [0], mk_node 0 0 ''g'' []]"
  have i: "aStar_init twin_heap 1 2 = twin_heap"
    by (simp add: aStar_init_def twin_heap_def mk_node_def distanceTo_def haversineDistance_self)
  have s: "aStar_search twin_heap 1 2 = Some (hp1, Some 0)"
    unfolding aStar_search_def i
    apply (subst aStar_loop.simps)
    apply (simp add: twin_heap_def mk_node_def improve_def distanceTo_def
        haversineDistance_quarter haversineDistance_self)
    apply (subst aStar_loop.simps)
    apply (simp add: hp1_def mk_node_def)
    done
  have "reconstructPath hp1 (Some 0) = Some [\<lparr>lat = 0, lng = 0\<rparr>, \<lparr>lat = 0, lng = 90\<rparr>]"
    unfolding reconstructPath_def
    apply (subst reconstructPath_loop.simps)
    apply (simp add: hp1_def mk_node_def)
    apply (subst reconstructPath_loop.simps)
    apply simp
    apply (subst reconstructPath_loop.simps)
    apply simp
    done
  then show ?thesis using s by (simp add: aStar_def)
qed

lemma twin_line:
  "is_path twin_heap p \<Longrightarrow> p \<noteq> [] \<Longrightarrow> hd p < 2 \<Longrightarrow> last p < 2"
proof (induction twin_heap p rule: is_path.induct)
  case (1 a b p)
  have "b < 2" using "1.prems"(1,3)
    by (auto simp: twin_heap_def mk_node_def nth_Cons split: nat.splits)
  then show ?case using 1 by simp
qed simp_all

lemma twin_disconnected: "\<forall>p. \<not> path_from_to twin_heap 1 2 p"
  using twin_line by (fastforce simp: path_from_to_def)

text \<open>
  Claim C5, as it is written, fails in a graph in which an id is used twice.  After
  \<^verbatim>\<open>addNode(0, 90, 'g')\<close>, \<^verbatim>\<open>addNode(0, 0, 's')\<close>, \<^verbatim>\<open>addEdge('g', 's')\<close> and
  \<^verbatim>\<open>addNode(0, 0, 'g')\<close> the map holds \<open>s\<close> and the second node \<open>g\<close>, which has no edge, so no
  path leads from \<open>s\<close> to it; the search from \<open>s\<close> to it meets the first node \<open>g\<close>, takes it
  for the goal by its id, and returns the path to it.
\<close>

theorem aStar_reused_id_reaches_twin:
  "twin_build = (twin_heap, twin_graph) \<and>
   1 \<in> graph_nodes twin_graph \<and> 2 \<in> graph_nodes twin_graph \<and>
   (\<forall>p. \<not> path_from_to twin_heap 1 2 p) \<and>
   map_option snd (aStar twin_heap (Some 1) (Some 2)) =
     Some (Some [\<lparr>lat = 0, lng = 0\<rparr>, \<lparr>lat = 0, lng = 90\<rparr>])"
  using twin_build twin_disconnected twin_aStar
  by (simp add: graph_nodes_def twin_graph_def)


section \<open>PathSearch: the path found is a shortest one\<close>

lemma pchain_last: "pchain hp a p \<Longrightarrow> p \<noteq> [] \<and> last p = a"
  by (induction rule: pchain.induct) simp_all

lemma pchain_cong:
  assumes "pchain hp a p" "\<forall>x\<in>set p. parent (hp' ! x) = parent (hp ! x)"
  shows "pchain hp' a p"
  using assms
proof (induction rule: pchain.induct)
  case (pchain_root a)
  then show ?case by (simp add: pchain.pchain_root)
next
  case (pchain_step a b p)
  then show ?case by (simp add: pchain.pchain_step)
qed

lemma reconstructPath_loop_pchain:
  assumes "pchain hp a p"
  shows "reconstructPath_loop hp (Some a) acc = Some (map (\<lambda>x. position (hp ! x)) p @ acc)"
  using assms
proof (induction arbitrary: acc rule: pchain.induct)
  case (pchain_root a)
  show ?case
    apply (subst reconstructPath_loop.simps)
    apply (simp add: pchain_root)
    apply (subst reconstructPath_loop.simps)
    apply (simp add: position_def)
    done
next
  case (pchain_step a b p)
  show ?case
    apply (subst reconstructPath_loop.simps)
    apply (simp add: pchain_step.hyps(1) pchain_step.IH position_def)
    done
qed

lemma reconstructPath_pchain:
  "pchain hp a p \<Longrightarrow> reconstructPath hp (Some a) = Some (map (\<lambda>x. position (hp ! x)) p)"
  using reconstructPath_loop_pchain [of hp a p "[]"] by (simp add: reconstructPath_def)

lemma path_cost_nonneg: "0 \<le> path_cost hp p"
  by (induction hp p rule: path_cost.induct) (simp_all add: distanceTo_nonneg)

lemma path_cost_snoc:
  "p \<noteq> [] \<Longrightarrow> path_cost hp (p @ [b]) = path_cost hp p + distanceTo (hp ! last p) (hp ! b)"
  by (induction hp p rule: path_cost.induct) simp_all

lemma is_path_append_split:
  "is_path hp (p1 @ x # y # p2) \<longleftrightarrow>
     is_path hp (p1 @ [x]) \<and> y \<in> set (neighbors (hp ! x)) \<and> is_path hp (y # p2)"
proof (induction p1)
  case Nil
  then show ?case by simp
next
  case (Cons a p1)
  then show ?case by (cases p1) auto
qed

lemma path_cost_append_split:
  "path_cost hp (p1 @ x # y # p2) =
     path_cost hp (p1 @ [x]) + distanceTo (hp ! x) (hp ! y) + path_cost hp (y # p2)"
proof (induction p1)
  case Nil
  then show ?case by simp
next
  case (Cons a p1)
  then show ?case by (cases p1) auto
qed

lemma first_exit:
  assumes "p \<noteq> []" "hd p \<in> C" "last p \<notin> C"
  shows "\<exists>p1 x y p2. p = p1 @ x # y # p2 \<and> x \<in> C \<and> y \<notin> C"
  using assms
proof (induction p)
  case Nil
  then show ?case by simp
next
  case (Cons a p)
  show ?case
  proof (cases p)
    case Nil
    then show ?thesis using Cons.prems by simp
  next
    case (Cons b q)
    show ?thesis
    proof (cases "b \<in> C")
      case True
      then obtain p1 x y p2 where "p = p1 @ x # y # p2" "x \<in> C" "y \<notin> C"
        using Cons.IH Cons.prems \<open>p = b # q\<close> by auto
      then have "a # p = (a # p1) @ x # y # p2 \<and> x \<in> C \<and> y \<notin> C" by simp
      then show ?thesis by blast
    next
      case False
      have "a # p = [] @ a # b # q \<and> a \<in> C \<and> b \<notin> C"
        using Cons.prems False \<open>p = b # q\<close> by simp
      then show ?thesis by blast
    qed
  qed
qed

lemma heuristic_consistent:
  assumes "is_path hp q" "q \<noteq> []"
  shows "distanceTo (hp ! hd q) gl \<le> path_cost hp q + distanceTo (hp ! last q) gl"
  using assms
proof (induction hp q rule: path_cost.induct)
  case (1 hp a b p)
  have "distanceTo (hp ! a) gl \<le> distanceTo (hp ! a) (hp ! b) + distanceTo (hp ! b) gl"
    by (rule distanceTo_triangle)
  moreover have "distanceTo (hp ! b) gl \<le> path_cost hp (b # p) + distanceTo (hp ! last (b # p)) gl"
    using 1 by simp
  ultimately show ?case by simp
qed simp_all

lemma coords_cost_snoc:
  "p \<noteq> [] \<Longrightarrow> coords_cost (p @ [c]) =
     coords_cost p + haversineDistance (lat (last p)) (lng (last p)) (lat c) (lng c)"
  by (induction p rule: coords_cost.induct) simp_all

lemma total_distance_take:
  assumes "n \<le> length pth"
  shows "fold (\<lambda>i totalDistance.
             totalDistance +
             haversineDistance (lat (pth ! (i - 1))) (lng (pth ! (i - 1))) (lat (pth ! i)) (lng (pth ! i)))
          [1..<n] 0 = coords_cost (take n pth)"
  using assms
proof (induction n)
  case 0
  then show ?case by simp
next
  case (Suc m)
  show ?case
  proof (cases "m = 0")
    case True
    then show ?thesis by (cases pth) simp_all
  next
    case False
    then have m: "1 \<le> m" "m < length pth" using Suc.prems by simp_all
    have t: "take (Suc m) pth = take m pth @ [pth ! m]"
      using m by (simp add: take_Suc_conv_app_nth)
    have ne: "take m pth \<noteq> []" using m by auto
    have "last (take m pth) = take m pth ! (length (take m pth) - 1)"
      using ne by (rule last_conv_nth)
    then have l: "last (take m pth) = pth ! (m - 1)"
      using m by (simp add: min_absorb2)
    show ?thesis
      using Suc.IH m by (simp add: t coords_cost_snoc [OF ne] l)
  qed
qed

lemma total_distance_coords_cost: "total_distance pth = coords_cost pth"
  using total_distance_take [of "length pth" pth] by (simp add: total_distance_def)

lemma total_distance_positions:
  "total_distance (map (\<lambda>x. position (hp ! x)) p) = path_cost hp p"
  unfolding total_distance_coords_cost
  by (induction hp p rule: path_cost.induct) (simp_all add: distanceTo_def position_def)

lemma set_butlast_last: "p \<noteq> [] \<Longrightarrow> set p = insert (last p) (set (butlast p))"
  by (induction p) auto

lemma chain_inv_improve:
  assumes ci: "chain_inv N hp0 s hp os cl"
    and ss: "same_structure hp0 hp"
    and cur: "cur \<in> closed_nodes N hp0 cl"
    and nbN: "nb < length hp" and nbC: "nb \<notin> closed_nodes N hp0 cl"
    and edge: "nb \<in> set (neighbors (hp0 ! cur))"
    and tg: "tg = g (hp ! cur) + distanceTo (hp0 ! cur) (hp0 ! nb)"
    and os': "set os' = insert nb (set os)"
  shows "chain_inv N hp0 s (improve hp gl cur nb tg) os' cl"
  unfolding chain_inv_def
proof
  let ?C = "closed_nodes N hp0 cl"
  let ?hp' = "improve hp gl cur nb tg"
  fix a assume a: "a \<in> set os' \<union> ?C"
  have keep: "pchain ?hp' x p" if "pchain hp x p" "nb \<notin> set p" for x p
  proof (rule pchain_cong [OF that(1)])
    show "\<forall>y\<in>set p. parent (?hp' ! y) = parent (hp ! y)"
    proof
      fix y assume "y \<in> set p"
      then have "y \<noteq> nb" using that(2) by auto
      then show "parent (?hp' ! y) = parent (hp ! y)" by (simp add: improve_other)
    qed
  qed
  obtain pc where pc: "pchain hp cur pc" "path_from_to hp0 s cur pc" "set (butlast pc) \<subseteq> ?C"
    "g (hp ! cur) = path_cost hp0 pc"
    using ci cur unfolding chain_inv_def by blast
  have pcl: "pc \<noteq> []" "last pc = cur" using pchain_last [OF pc(1)] by simp_all
  have pcC: "set pc \<subseteq> ?C" using set_butlast_last [OF pcl(1)] pc(3) pcl cur by auto
  then have nbpc: "nb \<notin> set pc" using nbC by auto
  show "\<exists>p. pchain ?hp' a p \<and> path_from_to hp0 s a p \<and> set (butlast p) \<subseteq> ?C \<and>
      g (?hp' ! a) = path_cost hp0 p"
  proof (cases "a = nb")
    case True
    have 1: "pchain ?hp' nb (pc @ [nb])"
    proof (rule pchain_step)
      show "parent (?hp' ! nb) = Some cur" using nbN by (simp add: improve_same)
      show "pchain ?hp' cur pc" using keep [OF pc(1) nbpc] .
    qed
    have 2: "path_from_to hp0 s nb (pc @ [nb])" using path_from_to_snoc [OF pc(2) edge] .
    have 3: "set (butlast (pc @ [nb])) \<subseteq> ?C" using pcC by simp
    have "g (?hp' ! nb) = tg" using nbN by (simp add: improve_same)
    then have 4: "g (?hp' ! nb) = path_cost hp0 (pc @ [nb])"
      using tg pc(4) pcl by (simp add: path_cost_snoc)
    show ?thesis using True 1 2 3 4 by blast
  next
    case False
    then have "a \<in> set os \<union> ?C" using a os' by auto
    then obtain p where p: "pchain hp a p" "path_from_to hp0 s a p" "set (butlast p) \<subseteq> ?C"
      "g (hp ! a) = path_cost hp0 p"
      using ci unfolding chain_inv_def by blast
    have pl: "p \<noteq> []" "last p = a" using pchain_last [OF p(1)] by simp_all
    have "set p \<subseteq> insert a ?C" using set_butlast_last [OF pl(1)] p(3) pl by auto
    then have "nb \<notin> set p" using nbC False by auto
    then have "pchain ?hp' a p" using keep [OF p(1)] by simp
    moreover have "g (?hp' ! a) = path_cost hp0 p" using p(4) False by (simp add: improve_other)
    ultimately show ?thesis using p(2,3) by blast
  qed
qed

lemma f_inv_improve:
  assumes fi: "f_inv N hp0 gl hp os cl"
    and ss: "same_structure hp0 hp"
    and nbN: "nb < length hp"
    and os': "set os' = insert nb (set os)"
  shows "f_inv N hp0 gl (improve hp gl cur nb tg) os' cl"
  unfolding f_inv_def
proof
  fix a assume a: "a \<in> set os' \<union> closed_nodes N hp0 cl"
  show "f (improve hp gl cur nb tg ! a) =
      g (improve hp gl cur nb tg ! a) + distanceTo (hp0 ! a) (hp0 ! gl)"
  proof (cases "a = nb")
    case True
    then show ?thesis using nbN distanceTo_same [OF ss, of nb gl] by (simp add: improve_same)
  next
    case False
    then have "a \<in> set os \<union> closed_nodes N hp0 cl" using a os' by auto
    then show ?thesis using fi False by (simp add: f_inv_def improve_other)
  qed
qed

lemma relaxed_improve:
  assumes re: "relaxed N hp0 cl hp os E"
    and cur: "cur \<in> closed_nodes N hp0 cl"
    and nbN: "nb < length hp" and nbC: "nb \<notin> closed_nodes N hp0 cl"
    and tg: "tg = g (hp ! cur) + distanceTo (hp0 ! cur) (hp0 ! nb)"
    and better: "nb \<in> set os \<longrightarrow> tg < g (hp ! nb)"
    and os': "set os' = insert nb (set os)"
  shows "relaxed N hp0 cl (improve hp gl cur nb tg) os' (insert (cur, nb) E)"
  unfolding relaxed_def
proof (intro ballI, clarify)
  let ?C = "closed_nodes N hp0 cl"
  let ?hp' = "improve hp gl cur nb tg"
  fix a b assume ab: "(a, b) \<in> insert (cur, nb) E"
  have gnb: "g (?hp' ! nb) = tg" using nbN by (simp add: improve_same)
  have gcl: "g (?hp' ! x) = g (hp ! x)" if "x \<in> ?C" for x
  proof -
    have "x \<noteq> nb" using that nbC by auto
    then show ?thesis by (simp add: improve_other)
  qed
  show "a \<in> ?C \<and> b \<in> set os' \<union> ?C \<and>
      g (?hp' ! b) \<le> g (?hp' ! a) + distanceTo (hp0 ! a) (hp0 ! b)"
  proof (cases "(a, b) = (cur, nb)")
    case True
    then show ?thesis using cur os' gnb gcl [OF cur] tg by simp
  next
    case False
    then have E: "a \<in> ?C" "b \<in> set os \<union> ?C"
      "g (hp ! b) \<le> g (hp ! a) + distanceTo (hp0 ! a) (hp0 ! b)"
      using ab re unfolding relaxed_def by auto
    have "g (?hp' ! b) \<le> g (hp ! b)"
    proof (cases "b = nb")
      case True
      then have "nb \<in> set os" using E(2) nbC by auto
      then show ?thesis using better gnb True by simp
    next
      case False
      then show ?thesis by (simp add: improve_other)
    qed
    then show ?thesis using E os' gcl [OF E(1)] by auto
  qed
qed

lemma relaxed_insert_same:
  assumes "relaxed N hp0 cl hp os E" "cur \<in> closed_nodes N hp0 cl"
    "nb \<in> set os \<union> closed_nodes N hp0 cl"
    "g (hp ! nb) \<le> g (hp ! cur) + distanceTo (hp0 ! cur) (hp0 ! nb)"
  shows "relaxed N hp0 cl hp os (insert (cur, nb) E)"
  using assms unfolding relaxed_def by auto

lemma closed_nodes_subset: "closed_nodes N hp0 cl \<subseteq> N"
  by (auto simp: closed_nodes_def)

lemma examine_one_relax:
  assumes S: "search_setting N hp0 s gl"
    and cur: "cur \<in> closed_nodes N hp0 cl"
    and oc: "optimal_closed N hp0 s hpA cl"
    and nb: "nb \<in> set (neighbors (hp0 ! cur))"
    and R: "relax_state N hp0 s gl cur cl hpA E dn (hp, os)"
  shows "relax_state N hp0 s gl cur cl hpA E (dn @ [nb]) (examine_one gl cl cur nb (hp, os))"
proof -
  let ?C = "closed_nodes N hp0 cl"
  have cu: "closed_under hp0 N" and inj: "inj_on (idf hp0) N"
    using S by (simp_all add: search_setting_def)
  have ss: "same_structure hp0 hp" and osN: "set os \<subseteq> N" and di: "distinct (map (idf hp0) os)"
    and ocl: "\<forall>a\<in>set os. idf hp0 a \<notin> cl"
    and gA: "\<forall>a\<in>?C. g (hp ! a) = g (hpA ! a)"
    and ci: "chain_inv N hp0 s hp os cl" and fi: "f_inv N hp0 gl hp os cl"
    and re: "relaxed N hp0 cl hp os (E \<union> {cur} \<times> set dn)"
    using R by (simp_all add: relax_state_def)
  have curN: "cur \<in> N" using cur closed_nodes_subset by blast
  have nbN: "nb \<in> N" using cu curN nb by (auto simp: closed_under_def)
  have nblen: "nb < length hp"
    using cu nbN same_structure_length [OF ss] by (simp add: closed_under_def)
  have ids: "\<And>a. id_node (hp ! a) = idf hp0 a" using idf_same [OF ss] by (simp add: idf_def)
  have E': "E \<union> {cur} \<times> set (dn @ [nb]) = insert (cur, nb) (E \<union> {cur} \<times> set dn)" by auto
  define tg where "tg = g (hp ! cur) + distanceTo (hp ! cur) (hp ! nb)"
  have tg: "tg = g (hp ! cur) + distanceTo (hp0 ! cur) (hp0 ! nb)"
    using distanceTo_same [OF ss] by (simp add: tg_def)
  have V: "case examine_one gl cl cur nb (hp, os) of (hp', os') \<Rightarrow>
     same_structure hp0 hp' \<and> set os' \<subseteq> N \<and> distinct (map (idf hp0) os') \<and>
     (\<forall>a\<in>set os'. idf hp0 a \<notin> cl)"
    by (rule examine_one_valid [OF ss cu osN di ocl nbN])
  have in_open: "nb \<in> set os" if "find (\<lambda>n. id_node (hp ! n) = id_node (hp ! nb)) os \<noteq> None"
  proof -
    from that obtain n where n: "n \<in> set os" "id_node (hp ! n) = id_node (hp ! nb)"
      by (auto simp: find_None_iff)
    then have "idf hp0 n = idf hp0 nb" using ids by simp
    then have "n = nb" using inj n(1) osN nbN by (auto dest: inj_onD)
    then show ?thesis using n(1) by simp
  qed
  have not_open: "nb \<notin> set os" if "find (\<lambda>n. id_node (hp ! n) = id_node (hp ! nb)) os = None"
    using that by (auto simp: find_None_iff)
  have unchanged: "relax_state N hp0 s gl cur cl hpA E (dn @ [nb]) (hp, os)"
    if "nb \<in> set os \<union> ?C" "g (hp ! nb) \<le> tg"
    unfolding relax_state_def E' fst_conv snd_conv
    using ss osN di ocl gA ci fi relaxed_insert_same [OF re cur that(1)] that(2) tg by simp
  have improved: "relax_state N hp0 s gl cur cl hpA E (dn @ [nb]) (improve hp gl cur nb tg, os')"
    if nC: "nb \<notin> ?C" and b: "nb \<in> set os \<longrightarrow> tg < g (hp ! nb)"
      and os': "set os' = insert nb (set os)"
      and v: "same_structure hp0 (improve hp gl cur nb tg) \<and> set os' \<subseteq> N \<and>
        distinct (map (idf hp0) os') \<and> (\<forall>a\<in>set os'. idf hp0 a \<notin> cl)"
    for os'
  proof -
    have 1: "\<forall>a\<in>?C. g (improve hp gl cur nb tg ! a) = g (hpA ! a)"
    proof
      fix a assume a: "a \<in> ?C"
      then have "a \<noteq> nb" using nC by auto
      then show "g (improve hp gl cur nb tg ! a) = g (hpA ! a)"
        using gA a by (simp add: improve_other)
    qed
    have 2: "chain_inv N hp0 s (improve hp gl cur nb tg) os' cl"
      by (rule chain_inv_improve [OF ci ss cur nblen nC nb tg os'])
    have 3: "f_inv N hp0 gl (improve hp gl cur nb tg) os' cl"
      by (rule f_inv_improve [OF fi ss nblen os'])
    have 4: "relaxed N hp0 cl (improve hp gl cur nb tg) os' (insert (cur, nb) (E \<union> {cur} \<times> set dn))"
      by (rule relaxed_improve [OF re cur nblen nC tg b os'])
    show ?thesis
      unfolding relax_state_def E' fst_conv snd_conv using v 1 2 3 4 by simp
  qed
  consider (closed) "id_node (hp ! nb) \<in> cl"
    | (push) "id_node (hp ! nb) \<notin> cl"
        "find (\<lambda>n. id_node (hp ! n) = id_node (hp ! nb)) os = None"
    | (keep) "id_node (hp ! nb) \<notin> cl"
        "find (\<lambda>n. id_node (hp ! n) = id_node (hp ! nb)) os \<noteq> None" "g (hp ! nb) \<le> tg"
    | (better) "id_node (hp ! nb) \<notin> cl"
        "find (\<lambda>n. id_node (hp ! n) = id_node (hp ! nb)) os \<noteq> None" "\<not> g (hp ! nb) \<le> tg"
    by blast
  then show ?thesis
  proof cases
    case closed
    then have nbC: "nb \<in> ?C" using nbN ids by (simp add: closed_nodes_def)
    obtain pc where pc: "pchain hp cur pc" "path_from_to hp0 s cur pc"
      "g (hp ! cur) = path_cost hp0 pc"
      using ci cur unfolding chain_inv_def by blast
    have pcl: "pc \<noteq> []" "last pc = cur" using pchain_last [OF pc(1)] by simp_all
    have "g (hpA ! nb) \<le> path_cost hp0 (pc @ [nb])"
      using oc nbC path_from_to_snoc [OF pc(2) nb] unfolding optimal_closed_def by blast
    then have "g (hp ! nb) \<le> tg"
      using gA nbC pc(3) pcl tg by (simp add: path_cost_snoc)
    then have "relax_state N hp0 s gl cur cl hpA E (dn @ [nb]) (hp, os)"
      using unchanged nbC by simp
    then show ?thesis using closed by (simp add: examine_one_cases)
  next
    case push
    have nC: "nb \<notin> ?C" using push(1) ids by (simp add: closed_nodes_def)
    have "relax_state N hp0 s gl cur cl hpA E (dn @ [nb]) (improve hp gl cur nb tg, os @ [nb])"
    proof (rule improved [OF nC])
      show "nb \<in> set os \<longrightarrow> tg < g (hp ! nb)" using not_open [OF push(2)] by simp
      show "set (os @ [nb]) = insert nb (set os)" by simp
      show "same_structure hp0 (improve hp gl cur nb tg) \<and> set (os @ [nb]) \<subseteq> N \<and>
        distinct (map (idf hp0) (os @ [nb])) \<and> (\<forall>a\<in>set (os @ [nb]). idf hp0 a \<notin> cl)"
        using V push by (simp add: examine_one_cases tg_def)
    qed
    then show ?thesis using push by (simp add: examine_one_cases tg_def)
  next
    case keep
    have "nb \<in> set os" using in_open [OF keep(2)] .
    then have "relax_state N hp0 s gl cur cl hpA E (dn @ [nb]) (hp, os)"
      using unchanged keep(3) by simp
    then show ?thesis using keep by (auto simp: examine_one_cases tg_def)
  next
    case better
    have o: "nb \<in> set os" using in_open [OF better(2)] .
    have nC: "nb \<notin> ?C" using better(1) ids by (simp add: closed_nodes_def)
    have "relax_state N hp0 s gl cur cl hpA E (dn @ [nb]) (improve hp gl cur nb tg, os)"
    proof (rule improved [OF nC])
      show "nb \<in> set os \<longrightarrow> tg < g (hp ! nb)" using better(3) by simp
      show "set os = insert nb (set os)" using o by auto
      show "same_structure hp0 (improve hp gl cur nb tg) \<and> set os \<subseteq> N \<and>
        distinct (map (idf hp0) os) \<and> (\<forall>a\<in>set os. idf hp0 a \<notin> cl)"
        using osN di ocl same_structure_trans [OF ss same_structure_improve] by simp
    qed
    then show ?thesis using better by (auto simp: examine_one_cases tg_def)
  qed
qed

lemma closed_nodes_insert:
  assumes "inj_on (idf hp0) N" "cur \<in> N"
  shows "closed_nodes N hp0 (insert (idf hp0 cur) cl) = insert cur (closed_nodes N hp0 cl)"
  using assms by (auto simp: closed_nodes_def dest: inj_onD)

lemma closed_nodes_empty [simp]: "closed_nodes N hp0 {} = {}"
  by (simp add: closed_nodes_def)

lemma selected_optimal:
  assumes S: "search_setting N hp0 s gl"
    and V: "valid_state N hp0 hp os cl"
    and CI: "chain_inv N hp0 s hp os cl"
    and OI: "opt_inv N hp0 s gl hp os cl"
    and ne: "os \<noteq> []"
    and P: "path_from_to hp0 s (fst (select_current hp os)) p"
  shows "g (hp ! fst (select_current hp os)) \<le> path_cost hp0 p"
proof -
  let ?cur = "fst (select_current hp os)"
  let ?C = "closed_nodes N hp0 cl"
  have fi: "f_inv N hp0 gl hp os cl" and oc: "optimal_closed N hp0 s hp cl"
    and re: "relaxed N hp0 cl hp os (edges_from hp0 ?C)"
    and o4: "s \<in> ?C \<or> (os = [s] \<and> cl = {})"
    using OI by (simp_all add: opt_inv_def)
  have curos: "?cur \<in> set os" by (rule select_current_mem [OF ne])
  have "idf hp0 ?cur \<notin> cl" using V curos by (simp add: valid_state_def)
  then have curC: "?cur \<notin> ?C" by (simp add: closed_nodes_def)
  have pl: "p \<noteq> []" "hd p = s" "last p = ?cur" "is_path hp0 p"
    using P by (simp_all add: path_from_to_def)
  from o4 show ?thesis
  proof
    assume sC: "s \<in> ?C"
    obtain p1 x y p2 where sp: "p = p1 @ x # y # p2" and x: "x \<in> ?C" and y: "y \<notin> ?C"
      using first_exit [of p ?C] pl sC curC by auto
    have ip: "is_path hp0 (p1 @ [x])" "y \<in> set (neighbors (hp0 ! x))" "is_path hp0 (y # p2)"
      using pl(4) is_path_append_split [of hp0 p1 x y p2] sp by simp_all
    have "hd (p1 @ [x]) = s" using pl(2) sp by (cases p1) simp_all
    then have px: "path_from_to hp0 s x (p1 @ [x])" using ip(1) by (simp add: path_from_to_def)
    have gx: "g (hp ! x) \<le> path_cost hp0 (p1 @ [x])"
      using oc x px unfolding optimal_closed_def by blast
    have "(x, y) \<in> edges_from hp0 ?C" using x ip(2) by (simp add: edges_from_def)
    then have yy: "y \<in> set os \<union> ?C" "g (hp ! y) \<le> g (hp ! x) + distanceTo (hp0 ! x) (hp0 ! y)"
      using re unfolding relaxed_def by auto
    then have yos: "y \<in> set os" using y by simp
    have fy: "f (hp ! y) = g (hp ! y) + distanceTo (hp0 ! y) (hp0 ! gl)"
      using fi yos by (simp add: f_inv_def)
    have fc: "f (hp ! ?cur) = g (hp ! ?cur) + distanceTo (hp0 ! ?cur) (hp0 ! gl)"
      using fi curos by (simp add: f_inv_def)
    have fmin: "f (hp ! ?cur) \<le> f (hp ! y)" using select_current_props(3) [OF ne] yos by blast
    have "last (y # p2) = ?cur" using pl(3) sp by simp
    then have hc: "distanceTo (hp0 ! y) (hp0 ! gl) \<le>
        path_cost hp0 (y # p2) + distanceTo (hp0 ! ?cur) (hp0 ! gl)"
      using heuristic_consistent [OF ip(3), of "hp0 ! gl"] by simp
    have "path_cost hp0 p =
        path_cost hp0 (p1 @ [x]) + distanceTo (hp0 ! x) (hp0 ! y) + path_cost hp0 (y # p2)"
      unfolding sp by (rule path_cost_append_split)
    then show ?thesis using gx yy(2) fy fc fmin hc by linarith
  next
    assume e: "os = [s] \<and> cl = {}"
    then have cs: "?cur = s" using curos by simp
    obtain q where q: "pchain hp s q" "set (butlast q) \<subseteq> ?C" "g (hp ! s) = path_cost hp0 q"
      using CI e unfolding chain_inv_def by auto
    have "butlast q = []" using q(2) e by simp
    moreover have "q \<noteq> []" using pchain_last [OF q(1)] by simp
    ultimately have "q = [last q]" by (metis append_butlast_last_id append_Nil)
    then have "path_cost hp0 q = 0" by (metis path_cost.simps(3))
    then show ?thesis using q(3) cs path_cost_nonneg [of hp0 p] by simp
  qed
qed

lemma chain_inv_mono:
  assumes "chain_inv N hp0 s hp os cl"
    "set os' \<union> closed_nodes N hp0 cl' \<subseteq> set os \<union> closed_nodes N hp0 cl"
    "closed_nodes N hp0 cl \<subseteq> closed_nodes N hp0 cl'"
  shows "chain_inv N hp0 s hp os' cl'"
  unfolding chain_inv_def
proof
  fix a assume "a \<in> set os' \<union> closed_nodes N hp0 cl'"
  then have "a \<in> set os \<union> closed_nodes N hp0 cl" using assms(2) by blast
  then obtain p where "pchain hp a p" "path_from_to hp0 s a p"
    "set (butlast p) \<subseteq> closed_nodes N hp0 cl" "g (hp ! a) = path_cost hp0 p"
    using assms(1) unfolding chain_inv_def by blast
  then show "\<exists>p. pchain hp a p \<and> path_from_to hp0 s a p \<and>
      set (butlast p) \<subseteq> closed_nodes N hp0 cl' \<and> g (hp ! a) = path_cost hp0 p"
    using assms(3) by blast
qed

lemma expand_invariants:
  assumes S: "search_setting N hp0 s gl"
    and V: "valid_state N hp0 hp os cl"
    and CI: "chain_inv N hp0 s hp os cl"
    and OI: "opt_inv N hp0 s gl hp os cl"
    and ne: "os \<noteq> []"
  shows "chain_inv N hp0 s (fst (expand gl hp os cl)) (snd (expand gl hp os cl))
           (insert (idf hp (fst (select_current hp os))) cl) \<and>
         opt_inv N hp0 s gl (fst (expand gl hp os cl)) (snd (expand gl hp os cl))
           (insert (idf hp (fst (select_current hp os))) cl)"
proof -
  obtain cur i where sc: "select_current hp os = (cur, i)" by (cases "select_current hp os")
  have i: "i < length os" and curi: "os ! i = cur"
    using select_current_props(1,2) [OF ne, of hp] sc by simp_all
  have cu: "closed_under hp0 N" and inj: "inj_on (idf hp0) N"
    using S by (simp_all add: search_setting_def)
  have ss: "same_structure hp0 hp" and osN: "set os \<subseteq> N"
    and di: "distinct (map (idf hp0) os)" and ocl: "\<forall>a\<in>set os. idf hp0 a \<notin> cl"
    using V by (simp_all add: valid_state_def)
  have curos: "cur \<in> set os" using i curi by auto
  then have curN: "cur \<in> N" using osN by auto
  have idc: "idf hp cur = idf hp0 cur" by (rule idf_same [OF ss])
  define os1 where "os1 = take i os @ drop (Suc i) os"
  define cl1 where "cl1 = insert (idf hp0 cur) cl"
  let ?C = "closed_nodes N hp0 cl"
  let ?C1 = "closed_nodes N hp0 cl1"
  have C1: "?C1 = insert cur ?C" unfolding cl1_def by (rule closed_nodes_insert [OF inj curN])
  have sub: "set os1 \<subseteq> set os" unfolding os1_def by (rule set_remove_nth_subset)
  have sup: "set os \<subseteq> insert cur (set os1)"
  proof -
    have "os = take i os @ os ! i # drop (Suc i) os" using i by (simp add: id_take_nth_drop)
    then have "set os = set (take i os) \<union> insert (os ! i) (set (drop (Suc i) os))"
      by (metis set_append list.simps(15))
    then show ?thesis using curi by (auto simp: os1_def)
  qed
  have di1: "distinct (map (idf hp0) os1)"
    unfolding os1_def by (rule distinct_map_remove_nth(1) [OF di i])
  have notin: "idf hp0 cur \<notin> idf hp0 ` set os1"
    unfolding os1_def using distinct_map_remove_nth(2) [OF di i] curi by simp
  have os1N: "set os1 \<subseteq> N" using sub osN by blast
  have ocl1: "\<forall>a\<in>set os1. idf hp0 a \<notin> cl1"
  proof
    fix a assume a: "a \<in> set os1"
    have "idf hp0 a \<noteq> idf hp0 cur" using notin a by (metis imageI)
    moreover have "idf hp0 a \<notin> cl" using ocl sub a by blast
    ultimately show "idf hp0 a \<notin> cl1" by (simp add: cl1_def)
  qed
  have fi: "f_inv N hp0 gl hp os cl" and oc: "optimal_closed N hp0 s hp cl"
    and re: "relaxed N hp0 cl hp os (edges_from hp0 ?C)"
    and o4: "s \<in> ?C \<or> (os = [s] \<and> cl = {})"
    using OI by (simp_all add: opt_inv_def)
  have cover: "set os1 \<union> ?C1 \<subseteq> set os \<union> ?C" using sub curos C1 by auto
  have cover': "set os \<union> ?C \<subseteq> set os1 \<union> ?C1" using sup C1 by auto
  have ci1: "chain_inv N hp0 s hp os1 cl1"
    by (rule chain_inv_mono [OF CI cover]) (simp add: C1 subset_insertI)
  have fi1: "f_inv N hp0 gl hp os1 cl1" using fi cover unfolding f_inv_def by blast
  have oc1: "optimal_closed N hp0 s hp cl1"
    unfolding optimal_closed_def
  proof (intro ballI allI impI)
    fix a p assume a: "a \<in> ?C1" and p: "path_from_to hp0 s a p"
    show "g (hp ! a) \<le> path_cost hp0 p"
    proof (cases "a = cur")
      case True
      then show ?thesis using selected_optimal [OF S V CI OI ne, of p] p sc by simp
    next
      case False
      then show ?thesis using a C1 oc p unfolding optimal_closed_def by blast
    qed
  qed
  have re1: "relaxed N hp0 cl1 hp os1 (edges_from hp0 ?C \<union> {cur} \<times> set [])"
    using re cover' C1 unfolding relaxed_def by auto
  have cur1: "cur \<in> ?C1" using C1 by simp
  have nbrs: "neighbors (hp ! cur) = neighbors (hp0 ! cur)" by (rule same_structure_fields(4) [OF ss])
  have R0: "relax_state N hp0 s gl cur cl1 hp (edges_from hp0 ?C) [] (hp, os1)"
    unfolding relax_state_def fst_conv snd_conv
    using ss os1N di1 ocl1 ci1 fi1 re1 by simp
  have "relax_state N hp0 s gl cur cl1 hp (edges_from hp0 ?C) (neighbors (hp0 ! cur))
      (examine gl cl1 cur (neighbors (hp0 ! cur)) (hp, os1))"
  proof (rule examine_rule [where P = "relax_state N hp0 s gl cur cl1 hp (edges_from hp0 ?C)"])
    show "relax_state N hp0 s gl cur cl1 hp (edges_from hp0 ?C) [] (hp, os1)" by (rule R0)
  next
    fix dn nb hp' os'
    assume "relax_state N hp0 s gl cur cl1 hp (edges_from hp0 ?C) dn (hp', os')"
      "nb \<in> set (neighbors (hp0 ! cur))"
    then show "relax_state N hp0 s gl cur cl1 hp (edges_from hp0 ?C) (dn @ [nb])
        (examine_one gl cl1 cur nb (hp', os'))"
      using examine_one_relax [OF S cur1 oc1] by blast
  qed
  moreover have "expand gl hp os cl = examine gl cl1 cur (neighbors (hp0 ! cur)) (hp, os1)"
    by (simp add: expand_def sc os1_def cl1_def nbrs idc [unfolded idf_def] idf_def)
  ultimately have R: "relax_state N hp0 s gl cur cl1 hp (edges_from hp0 ?C)
      (neighbors (hp0 ! cur)) (expand gl hp os cl)"
    by simp
  let ?hp2 = "fst (expand gl hp os cl)" and ?os2 = "snd (expand gl hp os cl)"
  have gA: "\<forall>a\<in>?C1. g (?hp2 ! a) = g (hp ! a)"
    and ci2: "chain_inv N hp0 s ?hp2 ?os2 cl1" and fi2: "f_inv N hp0 gl ?hp2 ?os2 cl1"
    and re2: "relaxed N hp0 cl1 ?hp2 ?os2 (edges_from hp0 ?C \<union> {cur} \<times> set (neighbors (hp0 ! cur)))"
    using R by (simp_all add: relax_state_def)
  have "edges_from hp0 ?C \<union> {cur} \<times> set (neighbors (hp0 ! cur)) = edges_from hp0 ?C1"
    unfolding C1 edges_from_def by auto
  then have re3: "relaxed N hp0 cl1 ?hp2 ?os2 (edges_from hp0 ?C1)" using re2 by simp
  have oc2: "optimal_closed N hp0 s ?hp2 cl1"
    using oc1 gA unfolding optimal_closed_def by simp
  have "s \<in> ?C1"
  proof -
    from o4 show ?thesis
    proof
      assume "s \<in> ?C" then show ?thesis using C1 by simp
    next
      assume "os = [s] \<and> cl = {}"
      then have "cur = s" using curos by simp
      then show ?thesis using C1 by simp
    qed
  qed
  then have "opt_inv N hp0 s gl ?hp2 ?os2 cl1"
    using fi2 oc2 re3 by (simp add: opt_inv_def)
  then show ?thesis using ci2 by (simp add: sc idc cl1_def)
qed

lemma graph_ok_setting:
  assumes ok: "graph_ok hp gr" and s: "s \<in> graph_nodes gr" and gl: "gl \<in> graph_nodes gr"
    and ss: "same_structure hp hp0"
  shows "search_setting (graph_nodes gr) hp0 s gl"
proof -
  have "closed_under hp0 (graph_nodes gr)"
    using ok closed_under_same [OF ss] by (simp add: graph_ok_def closed_graph_def)
  moreover have "inj_on (idf hp0) (graph_nodes gr)"
  proof (rule inj_onI)
    fix a b assume "a \<in> graph_nodes gr" "b \<in> graph_nodes gr" "idf hp0 a = idf hp0 b"
    then show "a = b"
      using graph_ok_inj [OF ok, of a b] same_structure_fields(3) [OF ss] by (simp add: idf_def)
  qed
  ultimately show ?thesis using s gl by (simp add: search_setting_def)
qed

lemma aStar_result:
  assumes ok: "graph_ok hp gr" and s: "s \<in> graph_nodes gr" and gl: "gl \<in> graph_nodes gr"
    and fresh: "parent (hp ! s) = None"
  shows "\<exists>hp'. same_structure hp hp' \<and>
     ((aStar hp (Some s) (Some gl) = Some (hp', None) \<and> (\<forall>p. \<not> path_from_to hp s gl p)) \<or>
      (\<exists>pc. aStar hp (Some s) (Some gl) = Some (hp', Some (map (\<lambda>x. position (hp ! x)) pc)) \<and>
         path_from_to hp s gl pc \<and>
         (\<forall>p. path_from_to hp s gl p \<longrightarrow> path_cost hp pc \<le> path_cost hp p)))"
proof -
  let ?N = "graph_nodes gr"
  let ?hp0 = "aStar_init hp s gl"
  have ss0: "same_structure hp ?hp0" by (rule same_structure_aStar_init)
  have S: "search_setting ?N ?hp0 s gl" by (rule graph_ok_setting [OF ok s gl ss0])
  have cu: "closed_under hp ?N" using ok by (simp add: graph_ok_def closed_graph_def)
  have slen: "s < length hp" using cu s by (simp add: closed_under_def)
  have V0: "valid_state ?N ?hp0 ?hp0 [s] {}" by (rule valid_state_init [OF cu s])
  have CI0: "chain_inv ?N ?hp0 s ?hp0 [s] {}"
    unfolding chain_inv_def
  proof
    fix a assume "a \<in> set [s] \<union> closed_nodes ?N ?hp0 {}"
    then have a: "a = s" by simp
    have "pchain ?hp0 s [s]" by (rule pchain_root) (simp add: aStar_init_parent fresh)
    moreover have "g (?hp0 ! s) = path_cost ?hp0 [s]" using slen by (simp add: aStar_init_nth_start)
    ultimately show "\<exists>p. pchain ?hp0 a p \<and> path_from_to ?hp0 s a p \<and>
        set (butlast p) \<subseteq> closed_nodes ?N ?hp0 {} \<and> g (?hp0 ! a) = path_cost ?hp0 p"
      using a path_from_to_refl [of ?hp0 s] by (intro exI [of _ "[s]"]) simp
  qed
  have "f (?hp0 ! s) = g (?hp0 ! s) + distanceTo (?hp0 ! s) (?hp0 ! gl)"
    using slen distanceTo_same [OF ss0, of s gl] by (simp add: aStar_init_nth_start)
  then have OI0: "opt_inv ?N ?hp0 s gl ?hp0 [s] {}"
    by (simp add: opt_inv_def f_inv_def optimal_closed_def relaxed_def edges_from_def)
  define I where "I = (\<lambda>hp' os cl. chain_inv ?N ?hp0 s hp' os cl \<and>
     opt_inv ?N ?hp0 s gl hp' os cl \<and> idf ?hp0 gl \<notin> cl)"
  have "\<exists>hp' os' cl'. valid_state ?N ?hp0 hp' os' cl' \<and> I hp' os' cl' \<and>
     ((os' = [] \<and> aStar_loop gl ?hp0 [s] {} = Some (hp', None)) \<or>
      (os' \<noteq> [] \<and> id_node (hp' ! fst (select_current hp' os')) = id_node (hp' ! gl) \<and>
       aStar_loop gl ?hp0 [s] {} = Some (hp', Some (fst (select_current hp' os')))))"
  proof (rule aStar_loop_rule [where I = I])
    show "valid_state ?N ?hp0 ?hp0 [s] {}" by (rule V0)
    show "I ?hp0 [s] {}" using CI0 OI0 by (simp add: I_def)
  next
    fix hp' os cl
    assume a: "valid_state ?N ?hp0 hp' os cl" "I hp' os cl" "os \<noteq> []"
      "id_node (hp' ! fst (select_current hp' os)) \<noteq> id_node (hp' ! gl)"
    have "same_structure ?hp0 hp'" using a(1) by (simp add: valid_state_def)
    then have "idf hp' (fst (select_current hp' os)) \<noteq> idf ?hp0 gl"
      using a(4) same_structure_fields(3) [of ?hp0 hp'] by (simp add: idf_def)
    then show "I (fst (expand gl hp' os cl)) (snd (expand gl hp' os cl))
        (insert (idf hp' (fst (select_current hp' os))) cl)"
      using expand_invariants [OF S, of hp' os cl] a(1-3) by (simp add: I_def)
  qed
  then obtain hp' os' cl' where V: "valid_state ?N ?hp0 hp' os' cl'"
    and CI: "chain_inv ?N ?hp0 s hp' os' cl'" and OI: "opt_inv ?N ?hp0 s gl hp' os' cl'"
    and gcl: "idf ?hp0 gl \<notin> cl'"
    and r: "(os' = [] \<and> aStar_loop gl ?hp0 [s] {} = Some (hp', None)) \<or>
      (os' \<noteq> [] \<and> id_node (hp' ! fst (select_current hp' os')) = id_node (hp' ! gl) \<and>
       aStar_loop gl ?hp0 [s] {} = Some (hp', Some (fst (select_current hp' os'))))"
    unfolding I_def by blast
  have ss1: "same_structure ?hp0 hp'" using V by (simp add: valid_state_def)
  have ss: "same_structure hp hp'" by (rule same_structure_trans [OF ss0 ss1])
  from r show ?thesis
  proof
    assume e: "os' = [] \<and> aStar_loop gl ?hp0 [s] {} = Some (hp', None)"
    then have res: "aStar hp (Some s) (Some gl) = Some (hp', None)"
      by (simp add: aStar_def aStar_search_def)
    let ?C = "closed_nodes ?N ?hp0 cl'"
    have sC: "s \<in> ?C" using OI e by (simp add: opt_inv_def)
    have re: "relaxed ?N ?hp0 cl' hp' os' (edges_from ?hp0 ?C)" using OI by (simp add: opt_inv_def)
    have "\<not> path_from_to hp s gl p" for p
    proof
      assume "path_from_to hp s gl p"
      then have p: "p \<noteq> []" "hd p = s" "last p = gl" "is_path ?hp0 p"
        using is_path_same [OF ss0] by (simp_all add: path_from_to_def)
      have "gl \<notin> ?C" using gcl by (simp add: closed_nodes_def)
      then obtain p1 x y p2 where sp: "p = p1 @ x # y # p2" and x: "x \<in> ?C" and y: "y \<notin> ?C"
        using first_exit [of p ?C] p sC by auto
      have "y \<in> set (neighbors (?hp0 ! x))"
        using p(4) is_path_append_split [of ?hp0 p1 x y p2] sp by simp
      then have "(x, y) \<in> edges_from ?hp0 ?C" using x by (simp add: edges_from_def)
      then have "y \<in> set os' \<union> ?C" using re unfolding relaxed_def by auto
      then show False using y e by simp
    qed
    then show ?thesis using ss res by blast
  next
    assume f: "os' \<noteq> [] \<and> id_node (hp' ! fst (select_current hp' os')) = id_node (hp' ! gl) \<and>
       aStar_loop gl ?hp0 [s] {} = Some (hp', Some (fst (select_current hp' os')))"
    let ?c = "fst (select_current hp' os')"
    have ne: "os' \<noteq> []" using f by simp
    have cos: "?c \<in> set os'" by (rule select_current_mem [OF ne])
    then have "?c \<in> ?N" using V by (auto simp: valid_state_def)
    moreover have "idf ?hp0 ?c = idf ?hp0 gl"
      using f same_structure_fields(3) [OF ss1] by (simp add: idf_def)
    ultimately have cg: "?c = gl" using S by (auto simp: search_setting_def dest: inj_onD)
    obtain pc where pc: "pchain hp' gl pc" "path_from_to ?hp0 s gl pc"
      "g (hp' ! gl) = path_cost ?hp0 pc"
      using CI cos cg unfolding chain_inv_def by auto
    have opt: "g (hp' ! gl) \<le> path_cost ?hp0 p" if "path_from_to ?hp0 s gl p" for p
      using selected_optimal [OF S V CI OI ne, of p] that cg by simp
    have "reconstructPath hp' (Some gl) = Some (map (\<lambda>x. position (hp' ! x)) pc)"
      by (rule reconstructPath_pchain [OF pc(1)])
    moreover have "position (hp' ! x) = position (hp ! x)" for x
      using same_structure_fields(1,2) [OF ss, of x] by (simp add: position_def)
    ultimately have "aStar hp (Some s) (Some gl) = Some (hp', Some (map (\<lambda>x. position (hp ! x)) pc))"
      using f cg by (simp add: aStar_def aStar_search_def)
    moreover have "path_from_to hp s gl pc" using pc(2) path_from_to_same [OF ss0] by simp
    moreover have "\<forall>p. path_from_to hp s gl p \<longrightarrow> path_cost hp pc \<le> path_cost hp p"
      using opt pc(3) path_from_to_same [OF ss0] path_cost_same [OF ss0] by simp
    ultimately show ?thesis using ss by blast
  qed
qed

text \<open>
  Claim C1.  In a graph whose nodes have distinct ids, are stored under their ids and have
  their neighbors in the graph, for nodes \<open>start\<close> and \<open>goal\<close> of it with \<^verbatim>\<open>start.parent\<close> being
  \<^verbatim>\<open>null\<close> (as it is when the scratch fields are fresh), and with the distances computed in
  exact arithmetic, a path that \<^verbatim>\<open>aStar(start, goal)\<close> returns holds the positions of a path
  from \<open>start\<close> to \<open>goal\<close> along neighbor edges, and the sum of the distances between its
  consecutive positions is the cost of that path and at most the cost of any path from
  \<open>start\<close> to \<open>goal\<close> along neighbor edges.
\<close>

theorem aStar_optimal:
  assumes "graph_ok hp gr" "start \<in> graph_nodes gr" "goal \<in> graph_nodes gr"
    and "parent (hp ! start) = None"
    and "aStar hp (Some start) (Some goal) = Some (hp', Some pth)"
  shows "\<exists>pc. path_from_to hp start goal pc \<and> pth = map (\<lambda>x. position (hp ! x)) pc \<and>
     total_distance pth = path_cost hp pc \<and>
     (\<forall>p. path_from_to hp start goal p \<longrightarrow> total_distance pth \<le> path_cost hp p)"
proof -
  from aStar_result [OF assms(1-4)] assms(5)
  obtain pc where pc: "pth = map (\<lambda>x. position (hp ! x)) pc" "path_from_to hp start goal pc"
    "\<forall>p. path_from_to hp start goal p \<longrightarrow> path_cost hp pc \<le> path_cost hp p"
    by auto
  have "total_distance pth = path_cost hp pc"
    unfolding pc(1) by (rule total_distance_positions)
  then show ?thesis using pc by auto
qed

theorem aStar_optimal_witness:
  "graph_ok equator_heap equator_graph \<and> 0 \<in> graph_nodes equator_graph \<and>
   2 \<in> graph_nodes equator_graph \<and> parent (equator_heap ! 0) = None \<and>
   path_from_to equator_heap 0 2 [0, 1, 2] \<and>
   (\<exists>hp' pth pc. aStar equator_heap (Some 0) (Some 2) = Some (hp', Some pth) \<and>
      path_from_to equator_heap 0 2 pc \<and> pth = map (\<lambda>x. position (equator_heap ! x)) pc \<and>
      total_distance pth = path_cost equator_heap pc \<and>
      total_distance pth \<le> path_cost equator_heap [0, 1, 2])"
proof -
  have n: "0 \<in> graph_nodes equator_graph" "2 \<in> graph_nodes equator_graph"
    by (simp_all add: graph_nodes_def equator_graph_def)
  have fr: "parent (equator_heap ! 0) = None" by (simp add: equator_heap_def mk_node_def)
  have p: "path_from_to equator_heap 0 2 [0, 1, 2]"
    by (simp add: path_from_to_def equator_heap_def mk_node_def)
  obtain hp' pth where r: "aStar equator_heap (Some 0) (Some 2) = Some (hp', Some pth)"
    using aStar_result [OF equator_graph_ok n fr] p by blast
  from aStar_optimal [OF equator_graph_ok n fr r]
  obtain pc where "path_from_to equator_heap 0 2 pc"
    "pth = map (\<lambda>x. position (equator_heap ! x)) pc"
    "total_distance pth = path_cost equator_heap pc"
    "total_distance pth \<le> path_cost equator_heap [0, 1, 2]"
    using p by blast
  then show ?thesis using equator_graph_ok n fr p r by blast
qed

lemma detour_costs:
  "total_distance [\<lparr>lat = 0, lng = 0\<rparr>, \<lparr>lat = 0, lng = 90\<rparr>, \<lparr>lat = 0, lng = 0\<rparr>] =
     2 * equator_quarter"
  "path_from_to detour_heap 1 2 [1, 3, 2]" "path_cost detour_heap [1, 3, 2] = 0"
  by (simp_all add: total_distance_coords_cost haversineDistance_quarter path_from_to_def
      detour_heap_def mk_node_def distanceTo_def haversineDistance_self)

text \<open>
  Claim C1, as it is written, fails in a graph in which an id is used twice.  The calls of
  \<open>detour_build\<close> leave a map with \<open>s\<close>, \<open>t\<close> and the second node \<open>x\<close>, all three at \<open>(0, 0)\<close>,
  and \<open>s\<close> and \<open>t\<close> have the first node \<open>x\<close>, at \<open>(0, 90)\<close>, and the second as neighbors.  The
  search from \<open>s\<close> to \<open>t\<close> puts the first \<open>x\<close> into the open set, finds an open node of the id
  \<open>x\<close> when it examines the second, and leaves the second out: the path it returns runs
  through the first \<open>x\<close> and is half the equator long, and the path through the second has
  the length \<open>0\<close>.
\<close>

theorem aStar_reused_id_not_optimal:
  "detour_build = (detour_heap, detour_graph) \<and>
   1 \<in> graph_nodes detour_graph \<and> 2 \<in> graph_nodes detour_graph \<and>
   map_option snd (aStar detour_heap (Some 1) (Some 2)) =
     Some (Some [\<lparr>lat = 0, lng = 0\<rparr>, \<lparr>lat = 0, lng = 90\<rparr>, \<lparr>lat = 0, lng = 0\<rparr>]) \<and>
   path_from_to detour_heap 1 2 [1, 3, 2] \<and>
   path_cost detour_heap [1, 3, 2] <
     total_distance [\<lparr>lat = 0, lng = 0\<rparr>, \<lparr>lat = 0, lng = 90\<rparr>, \<lparr>lat = 0, lng = 0\<rparr>]"
  using detour_build detour_aStar detour_costs equator_quarter_pos
  by (simp add: graph_nodes_def detour_graph_def)

section \<open>RouteService: the texts of a route\<close>












section \<open>The grid graph\<close>

lemma digit_char_is_digit: "d < 10 \<Longrightarrow> is_digit (digit_char d)"
  by (auto simp: is_digit_def digit_char_def nth_Cons' )

lemma digit_char_inj: "d < 10 \<Longrightarrow> e < 10 \<Longrightarrow> digit_char d = digit_char e \<Longrightarrow> d = e"
proof -
  assume d: "d < 10" and e: "e < 10" and eq: "digit_char d = digit_char e"
  have "distinct ''0123456789''" by simp
  moreover have "d < length ''0123456789''" "e < length ''0123456789''" using d e by simp_all
  ultimately show "d = e" using eq unfolding digit_char_def by (simp only: nth_eq_iff_index_eq)
qed

lemma show_nat_digits: "\<forall>c\<in>set (show_nat n). is_digit c"
proof (induction n rule: show_nat.induct)
  case (1 n)
  show ?case
  proof (cases "n < 10")
    case True
    then show ?thesis by (subst show_nat.simps) (simp add: digit_char_is_digit)
  next
    case False
    have "n mod 10 < 10" by simp
    then show ?thesis using 1 False
      by (subst show_nat.simps) (auto simp: digit_char_is_digit)
  qed
qed

lemma show_nat_nonempty: "show_nat n \<noteq> []"
  by (subst show_nat.simps) simp

lemma show_nat_inj: "show_nat m = show_nat n \<Longrightarrow> m = n"
proof (induction m arbitrary: n rule: show_nat.induct)
  case (1 m)
  show ?case
  proof (cases "m < 10")
    case True
    have m: "show_nat m = [digit_char m]" using True by (subst show_nat.simps) simp
    show ?thesis
    proof (cases "n < 10")
      case n: True
      have "show_nat n = [digit_char n]" using n by (subst show_nat.simps) simp
      then show ?thesis using "1.prems" m True n digit_char_inj by simp
    next
      case False
      have "show_nat n = show_nat (n div 10) @ [digit_char (n mod 10)]"
        using False by (subst show_nat.simps) simp
      then show ?thesis using "1.prems" m show_nat_nonempty [of "n div 10"] by simp
    qed
  next
    case False
    have m: "show_nat m = show_nat (m div 10) @ [digit_char (m mod 10)]"
      using False by (subst show_nat.simps) simp
    show ?thesis
    proof (cases "n < 10")
      case True
      have "show_nat n = [digit_char n]" using True by (subst show_nat.simps) simp
      then show ?thesis using "1.prems" m show_nat_nonempty [of "m div 10"] by simp
    next
      case n: False
      have "show_nat n = show_nat (n div 10) @ [digit_char (n mod 10)]"
        using n by (subst show_nat.simps) simp
      then have "show_nat (m div 10) = show_nat (n div 10)" "digit_char (m mod 10) = digit_char (n mod 10)"
        using "1.prems" m by simp_all
      then have "m div 10 = n div 10" "m mod 10 = n mod 10"
        using "1.IH" [OF False] digit_char_inj [of "m mod 10" "n mod 10"] by simp_all
      then show ?thesis by (metis div_mult_mod_eq)
    qed
  qed
qed

lemma append_comma_eq:
  assumes "a @ CHR '','' # b = c @ CHR '','' # d"
    "CHR '','' \<notin> set a" "CHR '','' \<notin> set c"
  shows "a = c \<and> b = d"
  using assms
proof (induction a arbitrary: c)
  case Nil
  then show ?case by (cases c) auto
next
  case (Cons x a)
  then show ?case by (cases c) auto
qed

lemma comma_not_digit: "\<not> is_digit CHR '',''"
  by (simp add: is_digit_def)

lemma grid_id_inj: "grid_id i j = grid_id i' j' \<Longrightarrow> i = i' \<and> j = j'"
proof -
  assume e: "grid_id i j = grid_id i' j'"
  have "CHR '','' \<notin> set (show_nat i)" "CHR '','' \<notin> set (show_nat i')"
    using show_nat_digits comma_not_digit by blast+
  then have "show_nat i = show_nat i' \<and> show_nat j = show_nat j'"
    using e append_comma_eq [of "show_nat i" "show_nat j" "show_nat i'" "show_nat j'"]
    by (simp add: grid_id_def)
  then show ?thesis using show_nat_inj by blast
qed

lemma grid_id_nonempty: "grid_id i j \<noteq> []"
  by (simp add: grid_id_def)

lemma fold_fold_product:
  "fold (\<lambda>i. fold (stp i) ys) xs = fold (\<lambda>c. stp (fst c) (snd c)) (List.product xs ys)"
proof (induction xs)
  case Nil
  then show ?case by simp
next
  case (Cons x xs)
  have "fold (\<lambda>c. stp (fst c) (snd c)) (map (Pair x) ys) = fold (stp x) ys"
    by (simp add: fold_map comp_def)
  then show ?case using Cons by (simp add: fold_append comp_def)
qed

lemma update_fresh: "k \<notin> fst ` set al \<Longrightarrow> AList.update k v al = al @ [(k, v)]"
  by (induction al) auto

lemma cell_id_inj: "cell_id c = cell_id d \<Longrightarrow> c = d"
  using grid_id_inj [of "fst c" "snd c" "fst d" "snd d"] by (simp add: cell_id_def prod_eq_iff)

lemma id_node_grid_node [simp]:
  "id_node (grid_node numstr center radiusKm latStep lngStep c) = cell_id c"
  by (simp add: grid_node_def Node_new_def cell_id_def grid_id_nonempty)

lemma grid_add_node_step:
  assumes "cell_id c \<notin> fst ` set gr"
  shows "grid_add_node numstr center radiusKm latStep lngStep (fst c) (snd c) ((hp, gr), nodes) =
     ((hp @ [grid_node numstr center radiusKm latStep lngStep c], gr @ [(cell_id c, length hp)]),
      nodes @ [(length hp, c)])"
proof -
  have "id_node (grid_node numstr center radiusKm latStep lngStep c) = cell_id c" by simp
  then show ?thesis
    using assms
    by (simp add: grid_add_node_def addNode_def Let_def update_fresh grid_node_def)
qed

lemma create_nodes:
  assumes "distinct cs" "\<forall>c\<in>set cs. cell_id c \<notin> fst ` set gr"
  shows "fold (\<lambda>c. grid_add_node numstr center radiusKm latStep lngStep (fst c) (snd c)) cs
           ((hp, gr), nodes) =
     ((hp @ map (grid_node numstr center radiusKm latStep lngStep) cs,
       gr @ zip (map cell_id cs) [length hp..<length hp + length cs]),
      nodes @ zip [length hp..<length hp + length cs] cs)"
  using assms
proof (induction cs arbitrary: hp gr nodes)
  case Nil
  then show ?case by simp
next
  case (Cons c cs)
  let ?nd = "grid_node numstr center radiusKm latStep lngStep c"
  have fresh: "cell_id c \<notin> fst ` set gr" using Cons.prems by simp
  have rest: "\<forall>d\<in>set cs. cell_id d \<notin> fst ` set (gr @ [(cell_id c, length hp)])"
  proof
    fix d assume d: "d \<in> set cs"
    then have "d \<noteq> c" using Cons.prems(1) by auto
    then have "cell_id d \<noteq> cell_id c" using cell_id_inj by blast
    then show "cell_id d \<notin> fst ` set (gr @ [(cell_id c, length hp)])"
      using Cons.prems(2) d by auto
  qed
  have "[length hp..<length hp + Suc (length cs)] =
      length hp # [Suc (length hp)..<length hp + Suc (length cs)]"
    by (rule upt_conv_Cons) simp
  then have u: "[length hp..<length hp + length (c # cs)] =
      length hp # [length (hp @ [?nd])..<length (hp @ [?nd]) + length cs]"
    by simp
  have "fold (\<lambda>c. grid_add_node numstr center radiusKm latStep lngStep (fst c) (snd c)) (c # cs)
           ((hp, gr), nodes) =
      fold (\<lambda>c. grid_add_node numstr center radiusKm latStep lngStep (fst c) (snd c)) cs
           ((hp @ [?nd], gr @ [(cell_id c, length hp)]), nodes @ [(length hp, c)])"
    by (simp add: grid_add_node_step [OF fresh])
  also have "\<dots> = ((hp @ [?nd] @ map (grid_node numstr center radiusKm latStep lngStep) cs,
       (gr @ [(cell_id c, length hp)]) @
         zip (map cell_id cs) [length (hp @ [?nd])..<length (hp @ [?nd]) + length cs]),
      (nodes @ [(length hp, c)]) @ zip [length (hp @ [?nd])..<length (hp @ [?nd]) + length cs] cs)"
    using Cons.IH [OF _ rest, of "hp @ [?nd]" "nodes @ [(length hp, c)]"] Cons.prems(1) by simp
  finally show ?case unfolding u by simp
qed

lemma distinct_cells: "distinct (cells N)"
  by (simp add: cells_def distinct_product)

lemma set_cells: "set (cells N) = {..<N} \<times> {..<N}"
  by (auto simp: cells_def)

lemma length_cells: "length (cells N) = N * N"
  by (simp add: cells_def)

lemma cells_nth: "i < N \<Longrightarrow> j < N \<Longrightarrow> cells N ! (i * N + j) = (i, j)"
proof -
  assume i: "i < N" and j: "j < N"
  have "i * N + j < Suc i * N" using j by simp
  also have "\<dots> \<le> N * N" using i by (metis Suc_leI mult.commute mult_le_mono2)
  finally have "i * N + j < length [0..<N] * length [0..<N]" by simp
  then have "List.product [0..<N] [0..<N] ! (i * N + j) =
      ([0..<N] ! ((i * N + j) div length [0..<N]), [0..<N] ! ((i * N + j) mod length [0..<N]))"
    by (rule product_nth)
  then show ?thesis using i j by (simp add: cells_def)
qed

lemma length_push_neighbor [simp]: "length (push_neighbor hp a b) = length hp"
  by (simp add: push_neighbor_def)

lemma push_neighbor_other: "x \<noteq> a \<Longrightarrow> push_neighbor hp a b ! x = hp ! x"
  by (simp add: push_neighbor_def)

lemma push_neighbor_same:
  "a < length hp \<Longrightarrow> push_neighbor hp a b ! a = (hp ! a)\<lparr>neighbors := neighbors (hp ! a) @ [b]\<rparr>"
  by (simp add: push_neighbor_def)

lemma push_neighbor_beyond: "\<not> a < length hp \<Longrightarrow> push_neighbor hp a b = hp"
  by (simp add: push_neighbor_def list_update_beyond)

lemma push_neighbor_fields:
  "id_node (push_neighbor hp a b ! x) = id_node (hp ! x)"
  "parent (push_neighbor hp a b ! x) = parent (hp ! x)"
  by (cases "a < length hp"; cases "x = a";
      simp add: push_neighbor_other push_neighbor_same push_neighbor_beyond)+

lemma push_neighbor_neighbors:
  "a < length hp \<Longrightarrow> neighbors (push_neighbor hp a b ! x) =
     (if x = a then neighbors (hp ! a) @ [b] else neighbors (hp ! x))"
  by (simp add: push_neighbor_other push_neighbor_same)

lemma length_connect_pair [simp]: "length (connect_pair p hp) = length hp"
  by (simp add: connect_pair_def)

lemma connect_pair_fields:
  "id_node (connect_pair p hp ! x) = id_node (hp ! x)"
  "parent (connect_pair p hp ! x) = parent (hp ! x)"
  by (simp_all add: connect_pair_def push_neighbor_fields)

lemma connect_pair_neighbors:
  assumes "fst p < length hp" "snd p < length hp"
  shows "neighbors (connect_pair p hp ! x) =
     neighbors (hp ! x) @ (if x = fst p then [snd p] else []) @ (if x = snd p then [fst p] else [])"
  using assms by (simp add: connect_pair_def push_neighbor_neighbors)

lemma length_fold_connect [simp]: "length (fold connect_pair ps hp) = length hp"
  by (induction ps arbitrary: hp) simp_all

lemma fold_connect_fields:
  "id_node (fold connect_pair ps hp ! x) = id_node (hp ! x)"
  "parent (fold connect_pair ps hp ! x) = parent (hp ! x)"
  by (induction ps arbitrary: hp) (simp_all add: connect_pair_fields)

lemma fold_connect_neighbors_length:
  assumes "\<forall>p\<in>set ps. fst p < length hp \<and> snd p < length hp"
  shows "length (neighbors (fold connect_pair ps hp ! x)) =
     length (neighbors (hp ! x)) + length (filter (\<lambda>p. fst p = x) ps) +
     length (filter (\<lambda>p. snd p = x) ps)"
  using assms
proof (induction ps arbitrary: hp)
  case Nil
  then show ?case by simp
next
  case (Cons p ps)
  have "\<forall>q\<in>set ps. fst q < length (connect_pair p hp) \<and> snd q < length (connect_pair p hp)"
    using Cons.prems by simp
  then have IH: "length (neighbors (fold connect_pair ps (connect_pair p hp) ! x)) =
     length (neighbors (connect_pair p hp ! x)) + length (filter (\<lambda>p. fst p = x) ps) +
     length (filter (\<lambda>p. snd p = x) ps)"
    by (rule Cons.IH)
  have n: "neighbors (connect_pair p hp ! x) =
     neighbors (hp ! x) @ (if x = fst p then [snd p] else []) @ (if x = snd p then [fst p] else [])"
    by (rule connect_pair_neighbors) (use Cons.prems in simp_all)
  show ?case using IH n by auto
qed



lemma addEdge_connect:
  assumes "getNode gr id1 = Some a1" "getNode gr id2 = Some a2"
  shows "addEdge (hp, gr) id1 id2 = (connect_pair (a1, a2) hp, gr)"
  using assms by (simp add: addEdge_def connect_pair_def)

lemma int_less_pred: "(int j < int N - 1) = (j + 1 < N)"
  by linarith

lemma grid_ready_connect_pair:
  "grid_ready base N hp gr \<Longrightarrow> grid_ready base N (connect_pair p hp) gr"
  by (simp add: grid_ready_def connect_pair_fields)

lemma grid_ready_fold_connect:
  "grid_ready base N hp gr \<Longrightarrow> grid_ready base N (fold connect_pair ps hp) gr"
  by (simp add: grid_ready_def fold_connect_fields)

lemma addEdge_cells:
  assumes "grid_ready base N hp gr" "c \<in> set (cells N)" "d \<in> set (cells N)"
  shows "addEdge (hp, gr) (id_node (hp ! cell_addr base N c)) (grid_id (fst d) (snd d)) =
     (connect_pair (cell_addr base N c, cell_addr base N d) hp, gr)"
proof -
  have "getNode gr (id_node (hp ! cell_addr base N c)) = Some (cell_addr base N c)"
    using assms(1,2) by (simp add: grid_ready_def)
  moreover have "getNode gr (grid_id (fst d) (snd d)) = Some (cell_addr base N d)"
    using assms(1,3) by (simp add: grid_ready_def cell_id_def)
  ultimately show ?thesis by (rule addEdge_connect)
qed

lemma maybe_addEdge:
  assumes "grid_ready base N hp gr" "c \<in> set (cells N)" "cond \<longrightarrow> i' < N \<and> j' < N"
  shows "(if cond then addEdge (hp, gr) (id_node (fst (hp, gr) ! cell_addr base N c))
             (grid_id i' j') else (hp, gr)) =
     (fold connect_pair (if cond then [(cell_addr base N c, cell_addr base N (i', j'))] else []) hp, gr)"
proof (cases cond)
  case True
  then have "(i', j') \<in> set (cells N)" using assms(3) by (simp add: set_cells)
  from addEdge_cells [OF assms(1,2) this] True show ?thesis by simp
next
  case False
  then show ?thesis by simp
qed

lemma grid_connect_links:
  assumes R: "grid_ready base N hp gr" and c: "c \<in> set (cells N)"
  shows "grid_connect (int N) (cell_addr base N c, c) (hp, gr) =
     (fold connect_pair (cell_links base N c) hp, gr)"
proof -
  obtain i j where ij: "c = (i, j)" by (cases c)
  have iN: "i < N" and jN: "j < N" using c ij by (simp_all add: set_cells)
  let ?A = "cell_addr base N"
  let ?c1 = "j + 1 < N" and ?c2 = "i + 1 < N"
  let ?c3 = "i + 1 < N \<and> j + 1 < N" and ?c4 = "i + 1 < N \<and> 0 < j"
  let ?l1 = "if ?c1 then [(?A c, ?A (i, j + 1))] else []"
  let ?l2 = "if ?c2 then [(?A c, ?A (i + 1, j))] else []"
  let ?l3 = "if ?c3 then [(?A c, ?A (i + 1, j + 1))] else []"
  let ?l4 = "if ?c4 then [(?A c, ?A (i + 1, j - 1))] else []"
  let ?h1 = "fold connect_pair ?l1 hp"
  let ?h2 = "fold connect_pair ?l2 ?h1"
  let ?h3 = "fold connect_pair ?l3 ?h2"
  let ?h4 = "fold connect_pair ?l4 ?h3"
  have R1: "grid_ready base N ?h1 gr" by (rule grid_ready_fold_connect [OF R])
  have R2: "grid_ready base N ?h2 gr" by (rule grid_ready_fold_connect [OF R1])
  have R3: "grid_ready base N ?h3 gr" by (rule grid_ready_fold_connect [OF R2])
  have s1: "(if ?c1 then addEdge (hp, gr) (id_node (fst (hp, gr) ! ?A c)) (grid_id i (j + 1))
             else (hp, gr)) = (?h1, gr)"
    by (rule maybe_addEdge [OF R c]) (use iN in simp)
  have s2: "(if ?c2 then addEdge (?h1, gr) (id_node (fst (?h1, gr) ! ?A c)) (grid_id (i + 1) j)
             else (?h1, gr)) = (?h2, gr)"
    by (rule maybe_addEdge [OF R1 c]) (use jN in simp)
  have s3: "(if ?c3 then addEdge (?h2, gr) (id_node (fst (?h2, gr) ! ?A c)) (grid_id (i + 1) (j + 1))
             else (?h2, gr)) = (?h3, gr)"
    by (rule maybe_addEdge [OF R2 c]) simp
  have s4: "(if ?c4 then addEdge (?h3, gr) (id_node (fst (?h3, gr) ! ?A c)) (grid_id (i + 1) (j - 1))
             else (?h3, gr)) = (?h4, gr)"
    by (rule maybe_addEdge [OF R3 c]) (use jN in auto)
  have "grid_connect (int N) (?A c, c) (hp, gr) = (?h4, gr)"
    unfolding grid_connect_def ij prod.case Let_def int_less_pred
    using s1 s2 s3 s4 unfolding ij by (simp only: of_nat_less_iff int_less_pred fst_conv)
  moreover have "cell_links base N c = ?l1 @ ?l2 @ ?l3 @ ?l4"
    by (simp add: cell_links_def links_def ij)
  ultimately show ?thesis by (simp only: fold_append comp_def)
qed

lemma cell_addr_inj:
  assumes "c \<in> set (cells N)" "d \<in> set (cells N)" "cell_addr base N c = cell_addr base N d"
  shows "c = d"
proof -
  have c: "snd c < N" and d: "snd d < N" using assms(1,2) by (auto simp: set_cells)
  have e: "fst c * N + snd c = fst d * N + snd d" using assms(3) by (simp add: cell_addr_def)
  have "(fst c * N + snd c) div N = fst c" "(fst c * N + snd c) mod N = snd c" using c by simp_all
  moreover have "(fst d * N + snd d) div N = fst d" "(fst d * N + snd d) mod N = snd d"
    using d by simp_all
  ultimately have "fst c = fst d" "snd c = snd d" using e by simp_all
  then show ?thesis by (simp add: prod_eq_iff)
qed

lemma cell_addr_less:
  assumes "c \<in> set (cells N)"
  shows "cell_addr base N c < base + N * N"
proof -
  have i: "fst c < N" and j: "snd c < N" using assms by (auto simp: set_cells)
  have "fst c * N + snd c < Suc (fst c) * N" using j by simp
  also have "\<dots> \<le> N * N" using i by (metis Suc_leI mult.commute mult_le_mono2)
  finally show ?thesis by (simp add: cell_addr_def)
qed

lemma cells_index: "k < N * N \<Longrightarrow> cell_addr base N (cells N ! k) = base + k"
proof -
  assume k: "k < N * N"
  then have "k < length [0..<N] * length [0..<N]" by simp
  then have "List.product [0..<N] [0..<N] ! k =
      ([0..<N] ! (k div length [0..<N]), [0..<N] ! (k mod length [0..<N]))"
    by (rule product_nth)
  moreover have "0 < N" using k by (cases N) simp_all
  moreover have "k div N < N" using k by (simp add: less_mult_imp_div_less)
  ultimately show ?thesis by (simp add: cells_def cell_addr_def)
qed

lemma zip_cells:
  "zip [base..<base + N * N] (cells N) = map (\<lambda>c. (cell_addr base N c, c)) (cells N)"
proof (rule nth_equalityI)
  show "length (zip [base..<base + N * N] (cells N)) =
      length (map (\<lambda>c. (cell_addr base N c, c)) (cells N))"
    by (simp add: length_cells)
next
  fix k assume "k < length (zip [base..<base + N * N] (cells N))"
  then have k: "k < N * N" by (simp add: length_cells)
  then show "zip [base..<base + N * N] (cells N) ! k =
      map (\<lambda>c. (cell_addr base N c, c)) (cells N) ! k"
    by (simp add: length_cells cells_index)
qed

lemma links_cells: "c \<in> set (cells N) \<Longrightarrow> set (links N c) \<subseteq> set (cells N)"
  by (auto simp: links_def set_cells split: if_splits)

lemma distinct_links: "distinct (links N c)"
  by (auto simp: links_def)

lemma distinct_incoming: "distinct (incoming N c)"
  by (auto simp: incoming_def)

lemma incoming_iff:
  assumes "c0 \<in> set (cells N)"
  shows "{c \<in> set (cells N). c0 \<in> set (links N c)} = set (incoming N c0)"
proof -
  obtain i0 j0 where c0: "c0 = (i0, j0)" by (cases c0)
  have r: "i0 < N" "j0 < N" using assms c0 by (simp_all add: set_cells)
  have "((i, j) \<in> set (cells N) \<and> c0 \<in> set (links N (i, j))) = ((i, j) \<in> set (incoming N c0))"
    for i j
    using r unfolding c0 links_def incoming_def set_cells
    by (simp split: if_splits) (safe; simp; linarith?)
  then show ?thesis by auto
qed

lemma sum_list_single:
  assumes "distinct xs" "x0 \<in> set xs"
  shows "sum_list (map (\<lambda>x. if x = x0 then (v::nat) else 0) xs) = v"
  using assms by (induction xs) auto

lemma sum_list_indicator:
  "sum_list (map (\<lambda>x. if P x then (1::nat) else 0) xs) = length (filter P xs)"
  by (induction xs) simp_all

lemma fold_grid_connect:
  assumes "grid_ready base N hp gr" "set cs \<subseteq> set (cells N)"
  shows "fold (grid_connect (int N)) (map (\<lambda>c. (cell_addr base N c, c)) cs) (hp, gr) =
     (fold connect_pair (concat (map (cell_links base N) cs)) hp, gr)"
  using assms
proof (induction cs arbitrary: hp)
  case Nil
  then show ?case by simp
next
  case (Cons c cs)
  have c: "c \<in> set (cells N)" and cs: "set cs \<subseteq> set (cells N)" using Cons.prems(2) by simp_all
  have R: "grid_ready base N (fold connect_pair (cell_links base N c) hp) gr"
    by (rule grid_ready_fold_connect [OF Cons.prems(1)])
  show ?case
    by (simp add: grid_connect_links [OF Cons.prems(1) c] Cons.IH [OF R cs])
qed

lemma created_ready:
  "grid_ready (length hp) N
     (hp @ map nd (cells N)) (zip (map cell_id (cells N)) [length hp..<length hp + N * N])"
  if nd: "\<And>c. id_node (nd c) = cell_id c"
  unfolding grid_ready_def
proof
  fix d assume d: "d \<in> set (cells N)"
  then obtain k where k: "k < N * N" and dk: "d = cells N ! k"
    by (metis in_set_conv_nth length_cells)
  have a: "cell_addr (length hp) N d = length hp + k" by (simp add: dk cells_index [OF k])
  have dist: "distinct (map cell_id (cells N))"
    by (simp add: distinct_map distinct_cells inj_on_def) (metis cell_id_inj)
  have "map_of (zip (map cell_id (cells N)) [length hp..<length hp + N * N])
      (map cell_id (cells N) ! k) = Some ([length hp..<length hp + N * N] ! k)"
    by (rule map_of_zip_nth) (use dist k in \<open>simp_all add: length_cells\<close>)
  then have g: "getNode (zip (map cell_id (cells N)) [length hp..<length hp + N * N]) (cell_id d)
      = Some (length hp + k)"
    using k by (simp add: getNode_def dk length_cells)
  have "(hp @ map nd (cells N)) ! (length hp + k) = nd d"
    using k by (simp add: nth_append dk length_cells)
  then show "getNode (zip (map cell_id (cells N)) [length hp..<length hp + N * N]) (cell_id d) =
       Some (cell_addr (length hp) N d) \<and>
       id_node ((hp @ map nd (cells N)) ! cell_addr (length hp) N d) = cell_id d"
    using g a nd by simp
qed

lemma createGridGraph_explicit:
  assumes "0 \<le> n"
  shows "\<exists>nd. (\<forall>c. neighbors (nd c) = [] \<and> parent (nd c) = None \<and> id_node (nd c) = cell_id c) \<and>
     createGridGraph numstr (hp, []) center radiusKm n =
     (fold connect_pair (grid_links (length hp) (nat n)) (hp @ map nd (cells (nat n))),
      zip (map cell_id (cells (nat n))) [length hp..<length hp + nat n * nat n])"
proof -
  define N where "N = nat n"
  have n: "n = int N" using assms by (simp add: N_def)
  define latStep where "latStep = (radiusKm / 111) / real_of_int n"
  define lngStep where "lngStep = (radiusKm / (111 * cos (lat center * pi / 180))) / real_of_int n"
  define nd where "nd = grid_node numstr center radiusKm latStep lngStep"
  define hp1 where "hp1 = hp @ map nd (cells N)"
  define gr1 where "gr1 = zip (map cell_id (cells N)) [length hp..<length hp + N * N]"
  have props: "\<forall>c. neighbors (nd c) = [] \<and> parent (nd c) = None \<and> id_node (nd c) = cell_id c"
    by (simp add: nd_def) (simp add: grid_node_def Node_new_def)
  have "fold (\<lambda>i. fold (grid_add_node numstr center radiusKm latStep lngStep i) [0..<N]) [0..<N]
          ((hp, []), []) =
        fold (\<lambda>c. grid_add_node numstr center radiusKm latStep lngStep (fst c) (snd c)) (cells N)
          ((hp, []), [])"
    by (simp only: fold_fold_product cells_def)
  also have "\<dots> = ((hp @ map nd (cells N),
       [] @ zip (map cell_id (cells N)) [length hp..<length hp + length (cells N)]),
      [] @ zip [length hp..<length hp + length (cells N)] (cells N))"
    unfolding nd_def by (rule create_nodes) (simp_all add: distinct_cells)
  also have "\<dots> = ((hp1, gr1), map (\<lambda>c. (cell_addr (length hp) N c, c)) (cells N))"
    by (simp add: hp1_def gr1_def length_cells zip_cells)
  finally have created:
    "fold (\<lambda>i. fold (grid_add_node numstr center radiusKm latStep lngStep i) [0..<N]) [0..<N]
          ((hp, []), []) = ((hp1, gr1), map (\<lambda>c. (cell_addr (length hp) N c, c)) (cells N))" .
  have R: "grid_ready (length hp) N hp1 gr1"
    unfolding hp1_def gr1_def by (rule created_ready) (use props in blast)
  have "createGridGraph numstr (hp, []) center radiusKm n =
      fold (grid_connect (int N)) (map (\<lambda>c. (cell_addr (length hp) N c, c)) (cells N)) (hp1, gr1)"
    unfolding createGridGraph_def Let_def latStep_def [symmetric] lngStep_def [symmetric]
      N_def [symmetric] created
    by (simp add: n)
  also have "\<dots> = (fold connect_pair (grid_links (length hp) N) hp1, gr1)"
    unfolding grid_links_def by (rule fold_grid_connect [OF R]) simp
  finally show ?thesis using props unfolding hp1_def gr1_def N_def by blast
qed

lemma grid_links_bound:
  assumes "p \<in> set (grid_links base N)"
  shows "fst p < base + N * N \<and> snd p < base + N * N"
proof -
  from assms obtain c d where c: "c \<in> set (cells N)" and d: "d \<in> set (links N c)"
    and p: "p = (cell_addr base N c, cell_addr base N d)"
    by (auto simp: grid_links_def cell_links_def)
  have "d \<in> set (cells N)" using links_cells [OF c] d by blast
  then show ?thesis using c p by (simp add: cell_addr_less)
qed

lemma count_distinct:
  "distinct xs \<Longrightarrow> length (filter (\<lambda>d. d = x0) xs) = (if x0 \<in> set xs then 1 else 0)"
  by (induction xs) (auto simp: filter_empty_conv)

lemma count_outgoing:
  assumes c0: "c0 \<in> set (cells N)"
  shows "length (filter (\<lambda>p. fst p = cell_addr base N c0) (grid_links base N)) =
     length (links N c0)"
proof -
  have "length (filter (\<lambda>p. fst p = cell_addr base N c0) (cell_links base N c)) =
      (if c = c0 then length (links N c0) else 0)" if "c \<in> set (cells N)" for c
  proof (cases "c = c0")
    case True
    then show ?thesis by (simp add: cell_links_def filter_map comp_def)
  next
    case False
    then have "cell_addr base N c \<noteq> cell_addr base N c0"
      using cell_addr_inj [OF that c0, of base] by blast
    then show ?thesis using False by (simp add: cell_links_def filter_map comp_def)
  qed
  then have "map (\<lambda>c. length (filter (\<lambda>p. fst p = cell_addr base N c0) (cell_links base N c)))
       (cells N) = map (\<lambda>c. if c = c0 then length (links N c0) else 0) (cells N)"
    by simp
  moreover have "length (filter (\<lambda>p. fst p = cell_addr base N c0) (grid_links base N)) =
      sum_list (map (\<lambda>c. length (filter (\<lambda>p. fst p = cell_addr base N c0) (cell_links base N c)))
       (cells N))"
    by (simp add: grid_links_def filter_concat length_concat comp_def)
  ultimately show ?thesis
    by (simp only: sum_list_single [OF distinct_cells c0])
qed

lemma count_incoming:
  assumes c0: "c0 \<in> set (cells N)"
  shows "length (filter (\<lambda>p. snd p = cell_addr base N c0) (grid_links base N)) =
     length (incoming N c0)"
proof -
  have one: "length (filter (\<lambda>p. snd p = cell_addr base N c0) (cell_links base N c)) =
      (if c0 \<in> set (links N c) then 1 else 0)" if c: "c \<in> set (cells N)" for c
  proof -
    have "filter (\<lambda>d. cell_addr base N d = cell_addr base N c0) (links N c) =
        filter (\<lambda>d. d = c0) (links N c)"
      by (rule filter_cong [OF refl]) (use links_cells [OF c] cell_addr_inj [OF _ c0] in blast)
    moreover have "length (filter (\<lambda>d. d = c0) (links N c)) =
        (if c0 \<in> set (links N c) then 1 else 0)"
      by (rule count_distinct [OF distinct_links])
    ultimately show ?thesis by (simp add: cell_links_def filter_map comp_def)
  qed
  have "length (filter (\<lambda>p. snd p = cell_addr base N c0) (grid_links base N)) =
      sum_list (map (\<lambda>c. if c0 \<in> set (links N c) then 1 else 0) (cells N))"
    using one by (simp add: grid_links_def filter_concat length_concat comp_def cong: map_cong)
  also have "\<dots> = length (filter (\<lambda>c. c0 \<in> set (links N c)) (cells N))"
    by (rule sum_list_indicator)
  also have "\<dots> = card {c \<in> set (cells N). c0 \<in> set (links N c)}"
    by (simp add: distinct_length_filter distinct_cells Collect_conj_eq Int_commute Collect_mem_eq)
  also have "\<dots> = length (incoming N c0)"
    by (simp add: incoming_iff [OF c0] distinct_card distinct_incoming)
  finally show ?thesis .
qed

lemma created_nth:
  assumes "c \<in> set (cells N)"
  shows "(hp @ map nd (cells N)) ! cell_addr (length hp) N c = nd c"
proof -
  from assms obtain k where k: "k < N * N" and ck: "c = cells N ! k"
    by (metis in_set_conv_nth length_cells)
  have "cell_addr (length hp) N c = length hp + k" by (simp add: ck cells_index [OF k])
  then show ?thesis using k by (simp add: nth_append ck length_cells)
qed

lemma grid_neighbors_length:
  assumes c: "c \<in> set (cells N)" and nd: "neighbors (nd c) = []"
  shows "length (neighbors (fold connect_pair (grid_links (length hp) N) (hp @ map nd (cells N)) !
            cell_addr (length hp) N c)) = length (links N c) + length (incoming N c)"
proof -
  have "\<forall>p\<in>set (grid_links (length hp) N).
      fst p < length (hp @ map nd (cells N)) \<and> snd p < length (hp @ map nd (cells N))"
    using grid_links_bound [of _ "length hp" N] by (simp add: length_cells)
  from fold_connect_neighbors_length [OF this, of "cell_addr (length hp) N c"]
  show ?thesis
    by (simp add: created_nth [OF c] nd count_outgoing [OF c] count_incoming [OF c])
qed

lemma degree_interior:
  "0 < i \<Longrightarrow> i + 1 < N \<Longrightarrow> 0 < j \<Longrightarrow> j + 1 < N \<Longrightarrow>
   length (links N (i, j)) + length (incoming N (i, j)) = 8"
  by (simp add: links_def incoming_def)

lemma degree_corner:
  "2 \<le> N \<Longrightarrow> i = 0 \<or> i + 1 = N \<Longrightarrow> j = 0 \<or> j + 1 = N \<Longrightarrow>
   length (links N (i, j)) + length (incoming N (i, j)) = 3"
  by (auto simp: links_def incoming_def)

lemma degree_boundary:
  "2 \<le> N \<Longrightarrow> i < N \<Longrightarrow> j < N \<Longrightarrow> (i = 0 \<or> i + 1 = N) \<noteq> (j = 0 \<or> j + 1 = N) \<Longrightarrow>
   length (links N (i, j)) + length (incoming N (i, j)) = 5"
  by (auto simp: links_def incoming_def)

lemma graph_nodes_created:
  "graph_nodes (zip (map cell_id (cells N)) [base..<base + N * N]) =
     cell_addr base N ` set (cells N)"
proof -
  have "snd ` set (zip (map cell_id (cells N)) [base..<base + N * N]) =
      set (map snd (zip (map cell_id (cells N)) [base..<base + N * N]))"
    by simp
  also have "\<dots> = set [base..<base + N * N]"
    by (simp only: map_snd_zip length_map length_cells length_upt add_diff_cancel_left')
  also have "\<dots> = set (map fst (zip [base..<base + N * N] (cells N)))"
    by (simp only: map_fst_zip length_map length_cells length_upt add_diff_cancel_left')
  also have "\<dots> = cell_addr base N ` set (cells N)"
    by (simp only: zip_cells) (simp add: comp_def)
  finally show ?thesis by (simp add: graph_nodes_def)
qed

text \<open>
  Claim C2.  On a new graph, \<^verbatim>\<open>createGridGraph(center, radiusKm, n)\<close> with an integer
  \<open>n \<ge> 2\<close> stores exactly \<open>n \<sqdot> n\<close> nodes, under distinct ids: one for every \<^verbatim>\<open>`${i},${j}`\<close> with
  \<open>i, j < n\<close>, and no other.  The neighbor list of the node \<open>(i, j)\<close> has exactly 8 entries
  when the node is interior, exactly 3 when it is a corner, and exactly 5 when it is on the
  boundary and no corner.  With \<open>n \<le> 0\<close> the graph stays empty and the heap is unchanged: no
  node is created and no neighbor list is extended.
\<close>

theorem createGridGraph_shape:
  assumes "createGridGraph numstr (hp, []) center radiusKm n = (hp', gr')"
  shows "(n \<le> 0 \<longrightarrow> hp' = hp \<and> gr' = []) \<and>
     (2 \<le> n \<longrightarrow>
        length gr' = nat n * nat n \<and> distinct (map fst gr') \<and> distinct (map snd gr') \<and>
        card (graph_nodes gr') = nat n * nat n \<and>
        (\<forall>a\<in>graph_nodes gr'. \<exists>i<nat n. \<exists>j<nat n. getNode gr' (grid_id i j) = Some a) \<and>
        (\<forall>i<nat n. \<forall>j<nat n. \<exists>a\<in>graph_nodes gr'. getNode gr' (grid_id i j) = Some a \<and>
           (0 < i \<and> i + 1 < nat n \<and> 0 < j \<and> j + 1 < nat n \<longrightarrow>
              length (neighbors (hp' ! a)) = 8) \<and>
           ((i = 0 \<or> i + 1 = nat n) \<and> (j = 0 \<or> j + 1 = nat n) \<longrightarrow>
              length (neighbors (hp' ! a)) = 3) \<and>
           ((i = 0 \<or> i + 1 = nat n) \<noteq> (j = 0 \<or> j + 1 = nat n) \<longrightarrow>
              length (neighbors (hp' ! a)) = 5)))"
proof (intro conjI impI)
  assume n: "n \<le> 0"
  have "createGridGraph numstr (hp, []) center radiusKm n = (hp, [])"
    using n by (simp add: createGridGraph_def Let_def)
  then show "hp' = hp" "gr' = []" using assms by simp_all
next
  assume n: "2 \<le> n"
  define N where "N = nat n"
  define base where "base = length hp"
  have N2: "2 \<le> N" using n by (simp add: N_def)
  from createGridGraph_explicit [of n numstr hp center radiusKm] n assms
  obtain nd where nd: "\<And>c. neighbors (nd c) = []" and idn: "\<And>c. id_node (nd c) = cell_id c"
    and hp': "hp' = fold connect_pair (grid_links base N) (hp @ map nd (cells N))"
    and gr': "gr' = zip (map cell_id (cells N)) [base..<base + N * N]"
    unfolding N_def base_def by auto
  have dk: "distinct (map cell_id (cells N))"
    by (simp add: distinct_map distinct_cells inj_on_def) (metis cell_id_inj)
  have R: "grid_ready base N hp' gr'"
    unfolding hp' gr' base_def
    by (rule grid_ready_fold_connect, rule created_ready) (rule idn)
  show "length gr' = nat n * nat n" by (simp add: gr' length_cells N_def)
  show "distinct (map fst gr')"
    unfolding gr' using dk
    by (simp only: map_fst_zip length_map length_cells length_upt add_diff_cancel_left')
  show ds: "distinct (map snd gr')"
    unfolding gr'
    by (simp only: map_snd_zip length_map length_cells length_upt add_diff_cancel_left'
        distinct_upt)
  have "card (graph_nodes gr') = length (map snd gr')"
    unfolding graph_nodes_def using distinct_card [OF ds] by simp
  then show "card (graph_nodes gr') = nat n * nat n" by (simp add: gr' length_cells N_def)
  have nodes: "graph_nodes gr' = cell_addr base N ` set (cells N)"
    unfolding gr' by (rule graph_nodes_created)
  show "\<forall>a\<in>graph_nodes gr'. \<exists>i<nat n. \<exists>j<nat n. getNode gr' (grid_id i j) = Some a"
  proof
    fix a assume "a \<in> graph_nodes gr'"
    then obtain c where c: "c \<in> set (cells N)" and a: "a = cell_addr base N c"
      using nodes by blast
    have "getNode gr' (grid_id (fst c) (snd c)) = Some a"
      using R c a by (simp add: grid_ready_def cell_id_def)
    moreover have "fst c < N" "snd c < N" using c by (auto simp: set_cells)
    ultimately show "\<exists>i<nat n. \<exists>j<nat n. getNode gr' (grid_id i j) = Some a"
      unfolding N_def by blast
  qed
  show "\<forall>i<nat n. \<forall>j<nat n. \<exists>a\<in>graph_nodes gr'. getNode gr' (grid_id i j) = Some a \<and>
           (0 < i \<and> i + 1 < nat n \<and> 0 < j \<and> j + 1 < nat n \<longrightarrow>
              length (neighbors (hp' ! a)) = 8) \<and>
           ((i = 0 \<or> i + 1 = nat n) \<and> (j = 0 \<or> j + 1 = nat n) \<longrightarrow>
              length (neighbors (hp' ! a)) = 3) \<and>
           ((i = 0 \<or> i + 1 = nat n) \<noteq> (j = 0 \<or> j + 1 = nat n) \<longrightarrow>
              length (neighbors (hp' ! a)) = 5)"
  proof (intro allI impI)
    fix i j assume i: "i < nat n" and j: "j < nat n"
    then have c: "(i, j) \<in> set (cells N)" by (simp add: set_cells N_def)
    define a where "a = cell_addr base N (i, j)"
    have an: "a \<in> graph_nodes gr'" using nodes c a_def by blast
    have g: "getNode gr' (grid_id i j) = Some a"
      using R c unfolding grid_ready_def cell_id_def a_def by fastforce
    have len: "length (neighbors (hp' ! a)) = length (links N (i, j)) + length (incoming N (i, j))"
      unfolding hp' a_def base_def by (rule grid_neighbors_length [OF c nd])
    have "0 < i \<and> i + 1 < nat n \<and> 0 < j \<and> j + 1 < nat n \<longrightarrow> length (neighbors (hp' ! a)) = 8"
      unfolding len N_def [symmetric] using degree_interior [of i N j] by blast
    moreover have "(i = 0 \<or> i + 1 = nat n) \<and> (j = 0 \<or> j + 1 = nat n) \<longrightarrow>
        length (neighbors (hp' ! a)) = 3"
      unfolding len N_def [symmetric] using degree_corner [OF N2, of i j] by blast
    moreover have "(i = 0 \<or> i + 1 = nat n) \<noteq> (j = 0 \<or> j + 1 = nat n) \<longrightarrow>
        length (neighbors (hp' ! a)) = 5"
      unfolding len N_def [symmetric] using degree_boundary [OF N2, of i j] i j
      unfolding N_def by blast
    ultimately show "\<exists>a\<in>graph_nodes gr'. getNode gr' (grid_id i j) = Some a \<and>
           (0 < i \<and> i + 1 < nat n \<and> 0 < j \<and> j + 1 < nat n \<longrightarrow>
              length (neighbors (hp' ! a)) = 8) \<and>
           ((i = 0 \<or> i + 1 = nat n) \<and> (j = 0 \<or> j + 1 = nat n) \<longrightarrow>
              length (neighbors (hp' ! a)) = 3) \<and>
           ((i = 0 \<or> i + 1 = nat n) \<noteq> (j = 0 \<or> j + 1 = nat n) \<longrightarrow>
              length (neighbors (hp' ! a)) = 5)"
      using an g by blast
  qed
qed

theorem createGridGraph_shape_witness:
  "length (snd (createGridGraph (\<lambda>x. []) ([], []) \<lparr>lat = 0, lng = 0\<rparr> 1 3)) = 9 \<and>
   (\<exists>a. getNode (snd (createGridGraph (\<lambda>x. []) ([], []) \<lparr>lat = 0, lng = 0\<rparr> 1 3)) ''1,1'' = Some a \<and>
      length (neighbors (fst (createGridGraph (\<lambda>x. []) ([], []) \<lparr>lat = 0, lng = 0\<rparr> 1 3) ! a)) = 8) \<and>
   (\<exists>a. getNode (snd (createGridGraph (\<lambda>x. []) ([], []) \<lparr>lat = 0, lng = 0\<rparr> 1 3)) ''0,0'' = Some a \<and>
      length (neighbors (fst (createGridGraph (\<lambda>x. []) ([], []) \<lparr>lat = 0, lng = 0\<rparr> 1 3) ! a)) = 3) \<and>
   (\<exists>a. getNode (snd (createGridGraph (\<lambda>x. []) ([], []) \<lparr>lat = 0, lng = 0\<rparr> 1 3)) ''0,1'' = Some a \<and>
      length (neighbors (fst (createGridGraph (\<lambda>x. []) ([], []) \<lparr>lat = 0, lng = 0\<rparr> 1 3) ! a)) = 5) \<and>
   createGridGraph (\<lambda>x. []) ([], []) \<lparr>lat = 0, lng = 0\<rparr> 1 0 = ([], [])"
proof -
  define G where "G = createGridGraph (\<lambda>x. []) ([], []) \<lparr>lat = 0, lng = 0\<rparr> 1 3"
  define E where "E = createGridGraph (\<lambda>x. []) ([], []) \<lparr>lat = 0, lng = 0\<rparr> 1 0"
  have g: "createGridGraph (\<lambda>x. []) ([], []) \<lparr>lat = 0, lng = 0\<rparr> 1 3 = (fst G, snd G)"
    by (simp add: G_def)
  have e: "createGridGraph (\<lambda>x. []) ([], []) \<lparr>lat = 0, lng = 0\<rparr> 1 0 = (fst E, snd E)"
    by (simp add: E_def)
  have ids: "grid_id 1 1 = ''1,1''" "grid_id 0 0 = ''0,0''" "grid_id 0 1 = ''0,1''"
    by (simp_all add: grid_id_def show_nat.simps digit_char_def)
  from createGridGraph_shape [OF g]
  have len: "length (snd G) = 9"
    and cells: "\<forall>i<3. \<forall>j<3. \<exists>a\<in>graph_nodes (snd G). getNode (snd G) (grid_id i j) = Some a \<and>
           (0 < i \<and> i + 1 < 3 \<and> 0 < j \<and> j + 1 < 3 \<longrightarrow> length (neighbors (fst G ! a)) = 8) \<and>
           ((i = 0 \<or> i + 1 = 3) \<and> (j = 0 \<or> j + 1 = 3) \<longrightarrow> length (neighbors (fst G ! a)) = 3) \<and>
           ((i = 0 \<or> i + 1 = 3) \<noteq> (j = 0 \<or> j + 1 = 3) \<longrightarrow> length (neighbors (fst G ! a)) = 5)"
    by simp_all
  have c11: "\<exists>a. getNode (snd G) ''1,1'' = Some a \<and> length (neighbors (fst G ! a)) = 8"
    using cells [rule_format, of 1 1] unfolding ids by auto
  have c00: "\<exists>a. getNode (snd G) ''0,0'' = Some a \<and> length (neighbors (fst G ! a)) = 3"
    using cells [rule_format, of 0 0] unfolding ids by auto
  have c01: "\<exists>a. getNode (snd G) ''0,1'' = Some a \<and> length (neighbors (fst G ! a)) = 5"
    using cells [rule_format, of 0 1] unfolding ids by auto
  from createGridGraph_shape [OF e] have "fst E = [] \<and> snd E = []" by simp
  then have "E = ([], [])" by (simp add: prod_eq_iff)
  then show ?thesis using len c11 c00 c01 unfolding G_def E_def by blast
qed

section \<open>RouteService: a result for every call\<close>

subsection \<open>The search returns when the parent of the start is \<^verbatim>\<open>null\<close>\<close>







subsection \<open>The grid is a graph with fresh nodes\<close>



subsection \<open>The results of \<^verbatim>\<open>calculateRoute\<close>\<close>








end
